theory Spec2Isabelle
  imports Main "HOL-Library.Word" "HOL-Library.Sublist"
begin

section \<open>The mountinfo parser (cmd/libsnap-confine-private/mountinfo.c)\<close>

subsection \<open>C strings and the scanf directives the parser uses\<close>

text \<open>
  A C string is the sequence of bytes before its first NUL byte. The functions below take
  the bytes of the string without the terminator; reading at the index of the terminator
  gives NUL, as in C.
\<close>

abbreviation NUL :: char where
  "NUL \<equiv> CHR 0x00"

definition char_at :: "string \<Rightarrow> nat \<Rightarrow> char" where
  "char_at line i = (if i < length line then line ! i else NUL)"

text \<open>
  \<open>strlen\<close>, and the largest value of the C type \<open>int\<close> on the target. The parser keeps its
  position in the line in \<open>int\<close> variables (\<open>offset\<close>, \<open>offset_delta\<close>, the count that \<open>%n\<close>
  stores, \<open>field_num\<close>). Below they are natural numbers, without overflow: the two agree
  as long as no value exceeds \<open>INT_MAX\<close>. No position the parser computes is beyond the
  length of the line (lemma \<open>offsets_fit_int\<close> below), so they agree on every line with
  \<open>strlen line \<le> INT_MAX\<close>. On a longer line the arithmetic of the source can overflow;
  such lines are outside this model, and every general statement about the parser below
  assumes the bound.
\<close>

definition strlen :: "string \<Rightarrow> nat" where
  "strlen mem = length (takeWhile (\<lambda>c. c \<noteq> NUL) mem)"

definition INT_MAX :: int where
  "INT_MAX = 2147483647"

text \<open>\<open>isspace\<close> in the C locale: space, \<open>\t\<close>, \<open>\n\<close>, \<open>\v\<close>, \<open>\f\<close>, \<open>\r\<close>.\<close>

definition isspace :: "char \<Rightarrow> bool" where
  "isspace c \<longleftrightarrow> c = CHR '' '' \<or> c = CHR 0x09 \<or> c = CHR 0x0A \<or> c = CHR 0x0B
     \<or> c = CHR 0x0C \<or> c = CHR 0x0D"

definition isdigit :: "char \<Rightarrow> bool" where
  "isdigit c \<longleftrightarrow> 48 \<le> (of_char c :: int) \<and> (of_char c :: int) \<le> 57"

definition digit_val :: "char \<Rightarrow> int" where
  "digit_val c = of_char c - 48"

definition digits_value :: "string \<Rightarrow> int" where
  "digits_value ds = foldl (\<lambda>a c. 10 * a + digit_val c) 0 ds"

text \<open>
  The subject sequence of \<open>%d\<close> and \<open>%u\<close>: leading white space is skipped, then an optional
  sign, then at least one decimal digit. The result is the sign, the magnitude of the
  digits and the input left unread; \<open>None\<close> is a matching or input failure.
\<close>

definition scan_number :: "string \<Rightarrow> (bool \<times> int \<times> string) option" where
  "scan_number s =
     (let s1 = dropWhile isspace s;
          neg = (case s1 of [] \<Rightarrow> False | c # _ \<Rightarrow> c = CHR ''-'');
          s2 = (case s1 of [] \<Rightarrow> [] | c # cs \<Rightarrow> if c = CHR ''-'' \<or> c = CHR ''+'' then cs else s1);
          ds = takeWhile isdigit s2
      in if ds = [] then None else Some (neg, digits_value ds, dropWhile isdigit s2))"

text \<open>
  The value stored for \<open>%d\<close> into an \<open>int\<close> and for \<open>%u\<close> into an \<open>unsigned\<close>, as the C
  library of the target (glibc, 64-bit \<open>long\<close>) computes it: \<open>strtol\<close> saturates at the
  range of \<open>long\<close>, \<open>strtoul\<close> saturates at \<open>ULONG_MAX\<close> and negates modulo \<open>2 ^ 64\<close>, and
  the result is truncated to 32 bits. For digit strings within the range of the target
  type this is the value the digits denote.
\<close>

definition conv_d :: "bool \<Rightarrow> int \<Rightarrow> 32 word" where
  "conv_d neg mag =
     word_of_int (if neg then max (- (2 ^ 63)) (- mag) else min (2 ^ 63 - 1) mag)"

definition conv_u :: "bool \<Rightarrow> int \<Rightarrow> 32 word" where
  "conv_u neg mag =
     (if 2 ^ 64 - 1 < mag then word_of_int (2 ^ 64 - 1)
      else if neg then word_of_int (- mag) else word_of_int mag)"

text \<open>
  \<open>sscanf(line, "%d %d %u:%u %n", ...)\<close>. White space in the format skips any amount of
  white space in the input (also none), as the conversions do before their subject
  sequence; the colon must match exactly. The result is \<open>None\<close> when fewer than four
  conversions were made (\<open>nscanned != 4\<close>), otherwise the four values and the number of
  characters consumed, which \<open>%n\<close> stores into an \<open>int\<close>: it is at most the length of the
  line, and the model is that of the source for lines of at most \<open>INT_MAX\<close> bytes only.
\<close>

definition sscanf_header :: "string \<Rightarrow> (32 word \<times> 32 word \<times> 32 word \<times> 32 word \<times> nat) option" where
  "sscanf_header line =
     (case scan_number line of
        None \<Rightarrow> None
      | Some (n1, m1, r1) \<Rightarrow>
     (case scan_number r1 of
        None \<Rightarrow> None
      | Some (n2, m2, r2) \<Rightarrow>
     (case scan_number r2 of
        None \<Rightarrow> None
      | Some (n3, m3, r3) \<Rightarrow>
     (case r3 of
        [] \<Rightarrow> None
      | c # r3' \<Rightarrow>
          if c \<noteq> CHR '':'' then None
          else
     (case scan_number r3' of
        None \<Rightarrow> None
      | Some (n4, m4, r4) \<Rightarrow>
          Some (conv_d n1 m1, conv_d n2 m2, conv_u n3 m3, conv_u n4 m4,
                length line - length (dropWhile isspace r4)))))))"

text \<open>
  \<open>sscanf(s, "%s%n", field, &offset_delta)\<close>: leading white space is skipped, then the
  longest run of characters that are not white space is the token. \<open>None\<close> is the input
  failure at the end of the string (\<open>nscanned != 1\<close>); otherwise the token, which is
  stored with a terminating NUL, and the number of characters consumed.
\<close>

definition sscanf_s :: "string \<Rightarrow> (string \<times> nat) option" where
  "sscanf_s s =
     (let tok = takeWhile (\<lambda>c. \<not> isspace c) (dropWhile isspace s)
      in if tok = [] then None
         else Some (tok, length (takeWhile isspace s) + length tok))"

subsection \<open>The entry and its buffer\<close>

text \<open>
  \<open>line_buf\<close> is the storage that follows the entry in its allocation, which \<open>calloc\<close>
  fills with zero bytes. The model keeps the bytes up to the last one written; the bytes
  after them are still zero. A write beyond the bytes kept extends them. The seven string
  fields are pointers into \<open>line_buf\<close>: \<open>Some p\<close> is \<open>&line_buf[p]\<close> and \<open>None\<close> is the
  null pointer.
\<close>

type_synonym linebuf = "char list"

definition peek :: "linebuf \<Rightarrow> nat \<Rightarrow> char" where
  "peek b i = (if i < length b then b ! i else NUL)"

definition poke :: "linebuf \<Rightarrow> nat \<Rightarrow> char \<Rightarrow> linebuf" where
  "poke b i c = (b @ replicate (Suc i - length b) NUL)[i := c]"

record sc_mountinfo_entry =
  mount_id :: "32 word"
  parent_id :: "32 word"
  dev_major :: "32 word"
  dev_minor :: "32 word"
  root :: "nat option"
  mount_dir :: "nat option"
  mount_opts :: "nat option"
  optional_fields :: "nat option"
  fs_type :: "nat option"
  mount_source :: "nat option"
  super_opts :: "nat option"
  line_buf :: linebuf

definition calloc_entry :: sc_mountinfo_entry where
  "calloc_entry =
     \<lparr>mount_id = 0, parent_id = 0, dev_major = 0, dev_minor = 0,
      root = None, mount_dir = None, mount_opts = None, optional_fields = None,
      fs_type = None, mount_source = None, super_opts = None,
      line_buf = []\<rparr>"

text \<open>Storing a token and its terminator at offset \<open>p\<close>, as \<open>%s\<close> does.\<close>

fun store_str :: "linebuf \<Rightarrow> nat \<Rightarrow> string \<Rightarrow> linebuf" where
  "store_str b p [] = poke b p NUL"
| "store_str b p (c # cs) = store_str (poke b p c) (Suc p) cs"

text \<open>The C string a pointer into the buffer denotes: the bytes from \<open>p\<close> up to the first NUL.\<close>

definition c_str :: "linebuf \<Rightarrow> nat \<Rightarrow> string" where
  "c_str b p = takeWhile (\<lambda>c. c \<noteq> NUL) (drop p b)"

definition field_str :: "sc_mountinfo_entry \<Rightarrow> nat option \<Rightarrow> string option" where
  "field_str e f = (case f of None \<Rightarrow> None | Some p \<Rightarrow> Some (c_str (line_buf e) p))"

subsection \<open>parse_next_string_field\<close>

text \<open>
  The state is the entry (for its buffer) and \<open>offset\<close>. \<open>None\<close> is the NULL result, which
  leaves both unchanged; otherwise the field pointer, the entry and the new offset.
  \<open>offset\<close> and \<open>offset_delta\<close> are \<open>int\<close> in the source and natural numbers here, which
  is the same for lines of at most \<open>INT_MAX\<close> bytes (see \<open>INT_MAX\<close> above); the function is
  not a model of the source on longer lines.
\<close>

definition parse_next_string_field ::
  "sc_mountinfo_entry \<Rightarrow> string \<Rightarrow> nat \<Rightarrow> (nat \<times> sc_mountinfo_entry \<times> nat) option" where
  "parse_next_string_field entry line offset =
     (let field = offset in
      if char_at line offset = CHR '' '' then
        Some (field, entry\<lparr>line_buf := poke (line_buf entry) field NUL\<rparr>, offset + 1)
      else
        (case sscanf_s (drop offset line) of
           None \<Rightarrow> None
         | Some (tok, offset_delta) \<Rightarrow>
             let offset' = offset + offset_delta in
             Some (field, entry\<lparr>line_buf := store_str (line_buf entry) field tok\<rparr>,
                   if char_at line offset' = CHR '' '' then offset' + 1 else offset')))"

lemma parse_next_string_field_advances:
  assumes "parse_next_string_field entry line offset = Some (f, entry', offset')"
  shows "offset < offset' \<and> offset < length line"
proof (cases "char_at line offset = CHR '' ''")
  case True
  with assms show ?thesis
    by (auto simp: parse_next_string_field_def char_at_def split: if_splits)
next
  case False
  with assms obtain tok d where s: "sscanf_s (drop offset line) = Some (tok, d)"
    and o: "offset + d \<le> offset'"
    by (auto simp: parse_next_string_field_def Let_def split: option.splits if_splits)
  from s have "tok \<noteq> []" "length tok \<le> d" "drop offset line \<noteq> []"
    by (auto simp: sscanf_s_def Let_def split: if_splits)
  with o show ?thesis by (cases tok) auto
qed

subsection \<open>sc_parse_mountinfo_entry\<close>

text \<open>
  The loop over the optional fields. \<open>Inl b\<close> is the jump to \<open>fail\<close>, with the bytes
  written to the buffer so far; \<open>Inr\<close> is the state after the \<open>break\<close>.
  \<open>strcmp(opt_field, "-") == 0\<close> reads the two bytes at \<open>opt_field\<close>. \<open>opt_field[-1]\<close> is
  the byte before \<open>opt_field\<close>; \<open>opt_field\<close> is not the start of the buffer there (lemma
  \<open>opt_field_positive\<close> below).
\<close>

function opt_fields_loop ::
  "sc_mountinfo_entry \<Rightarrow> string \<Rightarrow> nat \<Rightarrow> nat \<Rightarrow> linebuf + (sc_mountinfo_entry \<times> nat)" where
  "opt_fields_loop entry line offset field_num =
     (case parse_next_string_field entry line offset of
        None \<Rightarrow> Inl (line_buf entry)
      | Some (opt_field, entry', offset') \<Rightarrow>
          if peek (line_buf entry') opt_field = CHR ''-''
             \<and> peek (line_buf entry') (opt_field + 1) = NUL
          then Inr (entry'\<lparr>line_buf := poke (line_buf entry') opt_field NUL\<rparr>, offset')
          else
            opt_fields_loop
              (if field_num > 0
               then entry'\<lparr>line_buf := poke (line_buf entry') (opt_field - 1) (CHR '' '')\<rparr>
               else entry')
              line offset' (field_num + 1))"
  by pat_completeness auto
termination
proof (relation "measure (\<lambda>(entry, line, offset, field_num). length line - offset)")
  show "wf (measure (\<lambda>(entry, line, offset, field_num). length line - offset))"
    by simp
next
  fix entry :: sc_mountinfo_entry and line offset field_num x2 x y xa ya
  assume "parse_next_string_field entry line offset = Some x2"
    and "(x, y) = x2" and "(xa, ya) = y"
  then have "parse_next_string_field entry line offset = Some (x, xa, ya)"
    by simp
  from parse_next_string_field_advances [OF this]
  show "((if 0 < field_num then xa\<lparr>line_buf := poke (line_buf xa) (x - 1) (CHR '' '')\<rparr> else xa,
          line, ya, field_num + 1), entry, line, offset, field_num)
        \<in> measure (\<lambda>(entry, line, offset, field_num). length line - offset)"
    by auto
qed

declare opt_fields_loop.simps [simp del]

text \<open>
  The body of the parser, in the three parts the source has. \<open>Inl b\<close> is the jump to
  \<open>fail\<close> (\<open>b\<close> is what was written to the buffer of the entry that is then freed).

  First the four numbers and the three leading string fields.
\<close>

definition parse_leading_fields ::
  "sc_mountinfo_entry \<Rightarrow> string \<Rightarrow> linebuf + (sc_mountinfo_entry \<times> nat)" where
  "parse_leading_fields entry line =
     (case sscanf_header line of
        None \<Rightarrow> Inl (line_buf entry)
      | Some (mid, pid, mj, mn, offset_delta) \<Rightarrow>
          (let entry = entry\<lparr>mount_id := mid, parent_id := pid, dev_major := mj, dev_minor := mn\<rparr>;
               offset = 0 + offset_delta
           in
           (case parse_next_string_field entry line offset of
              None \<Rightarrow> Inl (line_buf entry)
            | Some (f, entry, offset) \<Rightarrow>
                (let entry = entry\<lparr>root := Some f\<rparr> in
                 (case parse_next_string_field entry line offset of
                    None \<Rightarrow> Inl (line_buf entry)
                  | Some (f, entry, offset) \<Rightarrow>
                      (let entry = entry\<lparr>mount_dir := Some f\<rparr> in
                       (case parse_next_string_field entry line offset of
                          None \<Rightarrow> Inl (line_buf entry)
                        | Some (f, entry, offset) \<Rightarrow>
                            Inr (entry\<lparr>mount_opts := Some f\<rparr>, offset))))))))"

text \<open>Last the three trailing string fields, after the separator.\<close>

definition parse_trailing_fields ::
  "sc_mountinfo_entry \<Rightarrow> string \<Rightarrow> nat \<Rightarrow> linebuf + sc_mountinfo_entry" where
  "parse_trailing_fields entry line offset =
     (case parse_next_string_field entry line offset of
        None \<Rightarrow> Inl (line_buf entry)
      | Some (f, entry, offset) \<Rightarrow>
          (let entry = entry\<lparr>fs_type := Some f\<rparr> in
           (case parse_next_string_field entry line offset of
              None \<Rightarrow> Inl (line_buf entry)
            | Some (f, entry, offset) \<Rightarrow>
                (let entry = entry\<lparr>mount_source := Some f\<rparr> in
                 (case parse_next_string_field entry line offset of
                    None \<Rightarrow> Inl (line_buf entry)
                  | Some (f, entry, offset) \<Rightarrow>
                      Inr (entry\<lparr>super_opts := Some f\<rparr>))))))"

text \<open>
  The parser. The argument is the memory at \<open>line\<close>; the string ends at its first NUL.
  The entry is allocated with \<open>strlen(line) + 1\<close> bytes of buffer, all zero, none of
  them written yet; the allocation is taken to succeed. \<open>Inr entry\<close> is the entry returned.
\<close>

definition sc_parse_mountinfo_entry_raw :: "string \<Rightarrow> linebuf + sc_mountinfo_entry" where
  "sc_parse_mountinfo_entry_raw mem =
     (let line = takeWhile (\<lambda>c. c \<noteq> NUL) mem;
          entry = calloc_entry
      in
      (case parse_leading_fields entry line of
         Inl b \<Rightarrow> Inl b
       | Inr (entry, offset) \<Rightarrow>
           (let entry = entry\<lparr>optional_fields := Some offset\<rparr> in
            (case opt_fields_loop entry line offset 0 of
               Inl b \<Rightarrow> Inl b
             | Inr (entry, offset) \<Rightarrow> parse_trailing_fields entry line offset))))"

text \<open>What the caller sees: the entry, or NULL.\<close>

definition sc_parse_mountinfo_entry :: "string \<Rightarrow> sc_mountinfo_entry option" where
  "sc_parse_mountinfo_entry line =
     (case sc_parse_mountinfo_entry_raw line of Inl b \<Rightarrow> None | Inr entry \<Rightarrow> Some entry)"

text \<open>
  The values of the eleven fields, as a caller reads them: the two identifiers as \<open>int\<close>,
  the device numbers as \<open>unsigned\<close>, and the C string behind each of the seven pointers.
\<close>

definition entry_values ::
  "sc_mountinfo_entry \<Rightarrow> int \<times> int \<times> int \<times> int \<times> string option list" where
  "entry_values e =
     (sint (mount_id e), sint (parent_id e), uint (dev_major e), uint (dev_minor e),
      map (field_str e)
        [root e, mount_dir e, mount_opts e, optional_fields e,
         fs_type e, mount_source e, super_opts e])"

subsection \<open>sc_parse_mountinfo\<close>

text \<open>
  What \<open>getline\<close> gives at each call is a line or a read error; the end of the list is
  the end of the file. \<open>fopen\<close> gives the stream, or \<open>None\<close> when the file cannot be
  opened. The table is the chain of entries from \<open>info->first\<close>, in the order they were
  linked. \<open>None\<close> is the NULL result; the entries linked before it are freed.
\<close>

datatype getline_result = Line string | ReadError

fun read_loop :: "getline_result list \<Rightarrow> sc_mountinfo_entry list \<Rightarrow> sc_mountinfo_entry list option" where
  "read_loop [] info = Some info"
| "read_loop (ReadError # rest) info = None"
| "read_loop (Line line # rest) info =
     (case sc_parse_mountinfo_entry line of
        None \<Rightarrow> None
      | Some entry \<Rightarrow> read_loop rest (info @ [entry]))"

definition sc_parse_mountinfo :: "getline_result list option \<Rightarrow> sc_mountinfo_entry list option" where
  "sc_parse_mountinfo f = (case f of None \<Rightarrow> None | Some stream \<Rightarrow> read_loop stream [])"

section \<open>The root hash of veritysetup (snap/integrity/dmverity/veritysetup.go)\<close>

subsection \<open>The library functions used\<close>

text \<open>A Go string is a sequence of bytes. A call either returns or panics.\<close>

datatype 'a outcome = Panic | Return 'a

datatype go_error = ErrTooLong | EmptyRootHash | OutputErr string string

definition HasPrefix :: "string \<Rightarrow> string \<Rightarrow> bool" where
  "HasPrefix s p = prefix p s"

text \<open>\<open>strings.SplitN(s, ":", 2)\<close>: the string itself when it has no colon, otherwise the
  text before the first colon and the text after it.\<close>

definition SplitN2 :: "string \<Rightarrow> string list" where
  "SplitN2 s =
     (if CHR '':'' \<in> set s
      then [takeWhile (\<lambda>c. c \<noteq> CHR '':'') s, drop 1 (dropWhile (\<lambda>c. c \<noteq> CHR '':'') s)]
      else [s])"

text \<open>
  \<open>strings.TrimSpace\<close> removes the leading and the trailing runes for which
  \<open>unicode.IsSpace\<close> holds. A rune decoded from the front or from the back of a string
  is one of them exactly when the string starts or ends with its UTF-8 encoding; these
  are the encodings of tab, line feed, vertical tab, form feed, carriage return, space,
  U+0085, U+00A0, U+1680, U+2000 to U+200A, U+2028, U+2029, U+202F, U+205F and U+3000.
\<close>

definition space_runes :: "string list" where
  "space_runes =
     [[CHR 0x09], [CHR 0x0A], [CHR 0x0B], [CHR 0x0C], [CHR 0x0D], [CHR 0x20],
      [CHR 0xC2, CHR 0x85], [CHR 0xC2, CHR 0xA0], [CHR 0xE1, CHR 0x9A, CHR 0x80],
      [CHR 0xE2, CHR 0x80, CHR 0x80], [CHR 0xE2, CHR 0x80, CHR 0x81],
      [CHR 0xE2, CHR 0x80, CHR 0x82], [CHR 0xE2, CHR 0x80, CHR 0x83],
      [CHR 0xE2, CHR 0x80, CHR 0x84], [CHR 0xE2, CHR 0x80, CHR 0x85],
      [CHR 0xE2, CHR 0x80, CHR 0x86], [CHR 0xE2, CHR 0x80, CHR 0x87],
      [CHR 0xE2, CHR 0x80, CHR 0x88], [CHR 0xE2, CHR 0x80, CHR 0x89],
      [CHR 0xE2, CHR 0x80, CHR 0x8A], [CHR 0xE2, CHR 0x80, CHR 0xA8],
      [CHR 0xE2, CHR 0x80, CHR 0xA9], [CHR 0xE2, CHR 0x80, CHR 0xAF],
      [CHR 0xE2, CHR 0x81, CHR 0x9F], [CHR 0xE3, CHR 0x80, CHR 0x80]]"

text \<open>The number of bytes of the white-space rune a string starts with; 0 when there is none.\<close>

definition space_width :: "string list \<Rightarrow> string \<Rightarrow> nat" where
  "space_width runes s = (case find (\<lambda>e. prefix e s) runes of None \<Rightarrow> 0 | Some e \<Rightarrow> length e)"

function trim_runes :: "string list \<Rightarrow> string \<Rightarrow> string" where
  "trim_runes runes s =
     (if space_width runes s = 0 then s else trim_runes runes (drop (space_width runes s) s))"
  by pat_completeness auto
termination
proof (relation "measure (\<lambda>(runes, s). length s)")
  show "wf (measure (\<lambda>(runes, s). length s))"
    by simp
next
  fix runes :: "string list" and s :: string
  assume w: "space_width runes s \<noteq> 0"
  then obtain e where "find (\<lambda>e. prefix e s) runes = Some e" and "e \<noteq> []"
    by (auto simp: space_width_def split: option.splits)
  then have "prefix e s" and "e \<noteq> []"
    by (auto simp: find_Some_iff)
  then have "s \<noteq> []"
    by auto
  with w show "((runes, drop (space_width runes s) s), runes, s) \<in> measure (\<lambda>(runes, s). length s)"
    by simp
qed

declare trim_runes.simps [simp del]

definition TrimSpace :: "string \<Rightarrow> string" where
  "TrimSpace s = rev (trim_runes (map rev space_runes) (rev (trim_runes space_runes s)))"

text \<open>
  \<open>bufio.Scanner\<close> with the default split function \<open>ScanLines\<close>, over the bytes not read
  yet. A call of \<open>Scan\<close> ends the scan at the end of the data, or with \<open>ErrTooLong\<close> when
  the next line does not fit the buffer of \<open>MaxScanTokenSize\<close> bytes; otherwise the token
  is the next line without its line feed and without one trailing carriage return.
\<close>

definition MaxScanTokenSize :: int where
  "MaxScanTokenSize = 64 * 1024"

definition dropCR :: "string \<Rightarrow> string" where
  "dropCR raw = (if raw \<noteq> [] \<and> last raw = CHR 0x0D then butlast raw else raw)"

datatype scan_result = Done "go_error option" | Token string string

definition Scan :: "string \<Rightarrow> scan_result" where
  "Scan data =
     (if data = [] then Done None
      else
        (let raw = takeWhile (\<lambda>c. c \<noteq> CHR 0x0A) data in
         if MaxScanTokenSize \<le> int (length raw) then Done (Some ErrTooLong)
         else Token (dropCR raw) (drop (length raw + 1) data)))"

lemma Scan_Token_shorter: "Scan data = Token line rest \<Longrightarrow> length rest < length data"
  by (auto simp: Scan_def Let_def split: if_splits)

subsection \<open>getRootHashFromOutput and Format\<close>

text \<open>
  The loop over the lines: the state is the data not scanned yet and \<open>rootHash\<close>; the loop
  returns \<open>rootHash\<close> and \<open>scanner.Err()\<close>. Reading index 1 of a split that has one
  element panics.
\<close>

function scan_loop :: "string \<Rightarrow> string \<Rightarrow> (string \<times> go_error option) outcome" where
  "scan_loop data rootHash =
     (case Scan data of
        Done err \<Rightarrow> Return (rootHash, err)
      | Token line rest \<Rightarrow>
          if HasPrefix line ''Root hash'' then
            (case SplitN2 line of
               _ # val # _ \<Rightarrow> scan_loop rest (TrimSpace val)
             | _ \<Rightarrow> Panic)
          else scan_loop rest rootHash)"
  by pat_completeness auto
termination
  by (relation "measure (\<lambda>(data, rootHash). length data)") (auto dest: Scan_Token_shorter)

declare scan_loop.simps [simp del]

definition getRootHashFromOutput :: "string \<Rightarrow> (string \<times> go_error option) outcome" where
  "getRootHashFromOutput output =
     (case scan_loop output [] of
        Panic \<Rightarrow> Panic
      | Return (rootHash, err) \<Rightarrow>
          if err \<noteq> None then Return ([], err)
          else if length rootHash = 0 then Return ([], Some EmptyRootHash)
          else Return (rootHash, None))"

record Info =
  RootHash :: string

text \<open>
  \<open>cmd.CombinedOutput()\<close> is the run of the external command: its combined output and
  its error, if any. \<open>OutputErr\<close> stands for the error \<open>osutil.OutputErr\<close> makes of both.
\<close>

definition Format ::
  "(string \<Rightarrow> string \<Rightarrow> string \<times> string option) \<Rightarrow> string \<Rightarrow> string
     \<Rightarrow> (Info option \<times> go_error option) outcome" where
  "Format CombinedOutput dataDevice hashDevice =
     (case CombinedOutput dataDevice hashDevice of
        (output, Some err) \<Rightarrow> Return (None, Some (OutputErr output err))
      | (output, None) \<Rightarrow>
          (case getRootHashFromOutput output of
             Panic \<Rightarrow> Panic
           | Return (rootHash, err) \<Rightarrow>
               if err \<noteq> None then Return (None, err)
               else Return (Some \<lparr>RootHash = rootHash\<rparr>, None)))"

section \<open>Notions used in the statements\<close>

subsection \<open>The mountinfo parser\<close>

text \<open>
  The offsets of the buffer up to the last one a run of the parser has written, whether
  it failed or not.
\<close>

definition written :: "linebuf + sc_mountinfo_entry \<Rightarrow> nat set" where
  "written r =
     (case r of Inl b \<Rightarrow> {..<length b} | Inr entry \<Rightarrow> {..<length (line_buf entry)})"

text \<open>The tokens of a text: its longest runs of characters that are not white space.\<close>

function ws_tokens :: "string \<Rightarrow> string list" where
  "ws_tokens s =
     (if dropWhile isspace s = [] then []
      else takeWhile (\<lambda>c. \<not> isspace c) (dropWhile isspace s)
             # ws_tokens (dropWhile (\<lambda>c. \<not> isspace c) (dropWhile isspace s)))"
  by pat_completeness auto
termination
proof (relation "measure length")
  show "wf (measure length)"
    by simp
next
  fix s :: string
  assume ne: "dropWhile isspace s \<noteq> []"
  then obtain x xs where r: "dropWhile isspace s = x # xs"
    by (cases "dropWhile isspace s") auto
  with hd_dropWhile [OF ne] have "\<not> isspace x"
    by simp
  then have "length (dropWhile (\<lambda>c. \<not> isspace c) (dropWhile isspace s)) \<le> length xs"
    by (simp add: r length_dropWhile_le)
  moreover have "length (x # xs) \<le> length s"
    unfolding r [symmetric] by (rule length_dropWhile_le)
  ultimately show "(dropWhile (\<lambda>c. \<not> isspace c) (dropWhile isspace s), s) \<in> measure length"
    by simp
qed

declare ws_tokens.simps [simp del]

text \<open>
  What is left of a line after its four numbers and its three leading string fields, as
  the parser reads them; \<open>None\<close> when they do not parse.
\<close>

definition after_leading_fields :: "string \<Rightarrow> string option" where
  "after_leading_fields mem =
     (let line = takeWhile (\<lambda>c. c \<noteq> NUL) mem in
      case parse_leading_fields calloc_entry line of
        Inl b \<Rightarrow> None
      | Inr (entry, offset) \<Rightarrow> Some (drop offset line))"

text \<open>The line of the kernel documentation, and the same line without its separator.\<close>

definition kernel_doc_line :: string where
  "kernel_doc_line =
     ''36 35 98:0 /mnt1 /mnt2 rw,noatime master:1 - ext3 /dev/root rw,errors=continue''"

definition no_separator_line :: string where
  "no_separator_line =
     ''36 35 98:0 /mnt1 /mnt2 rw,noatime master:1 ext3 /dev/root rw,errors=continue''"

text \<open>
  The grammar of a line of mountinfo, as proc(5) gives it: the identifiers and the device
  numbers in decimal, then root, mount_dir, mount_opts, the optional fields, the
  separator \<open>-\<close>, fs_type, mount_source and super_opts, one space after each but the last.
  A \<open>token\<close> is a field without white space and without NUL; it can be empty.
\<close>

definition token :: "string \<Rightarrow> bool" where
  "token t \<longleftrightarrow> (\<forall>c\<in>set t. \<not> isspace c \<and> c \<noteq> NUL)"

definition mountinfo_fields ::
  "string \<Rightarrow> string \<Rightarrow> string \<Rightarrow> string list \<Rightarrow> string \<Rightarrow> string \<Rightarrow> string \<Rightarrow> string" where
  "mountinfo_fields rt mdir mopts opts fs src sopts =
     rt @ '' '' @ mdir @ '' '' @ mopts @ '' '' @ concat (map (\<lambda>t. t @ '' '') opts) @ ''- ''
       @ fs @ '' '' @ src @ '' '' @ sopts"

text \<open>A number in decimal: \<open>show_dec\<close> for one that is not negative, \<open>show_int\<close> with a sign.\<close>

definition digit_char :: "int \<Rightarrow> char" where
  "digit_char d = char_of (48 + d)"

function show_dec :: "int \<Rightarrow> string" where
  "show_dec n = (if n < 10 then [digit_char n] else show_dec (n div 10) @ [digit_char (n mod 10)])"
  by pat_completeness auto
termination
  by (relation "measure nat") auto

declare show_dec.simps [simp del]

definition show_int :: "int \<Rightarrow> string" where
  "show_int n = (if n < 0 then CHR ''-'' # show_dec (- n) else show_dec n)"

definition mountinfo_line ::
  "int \<Rightarrow> int \<Rightarrow> int \<Rightarrow> int \<Rightarrow> string \<Rightarrow> string \<Rightarrow> string \<Rightarrow> string list
     \<Rightarrow> string \<Rightarrow> string \<Rightarrow> string \<Rightarrow> string" where
  "mountinfo_line mid pid mj mn rt mdir mopts opts fs src sopts =
     show_int mid @ '' '' @ show_int pid @ '' '' @ show_dec mj @ '':'' @ show_dec mn @ '' ''
       @ mountinfo_fields rt mdir mopts opts fs src sopts"

text \<open>
  The optional fields as the parser leaves them in one string: the tokens with one space
  between them.
\<close>

definition join_sp :: "string list \<Rightarrow> string" where
  "join_sp ts = (case ts of [] \<Rightarrow> [] | t # ts' \<Rightarrow> t @ concat (map (\<lambda>u. CHR '' '' # u) ts'))"

text \<open>The buffer \<open>b\<close> has the string \<open>s\<close> and its terminator at offset \<open>p\<close>.\<close>

definition holds :: "linebuf \<Rightarrow> nat \<Rightarrow> string \<Rightarrow> bool" where
  "holds b p s \<longleftrightarrow> (\<forall>i<length s. peek b (p + i) = s ! i) \<and> peek b (p + length s) = NUL"

text \<open>
  The round trip as the specification words it: \<open>"{mount_id} {parent_id}
  {dev_major}:{dev_minor} "\<close>, then root, mount_dir, mount_opts, optional_fields if it is
  not empty, \<open>-\<close>, fs_type, mount_source and super_opts joined by single spaces. The text
  of a field is the C string at its pointer (empty for NULL).
\<close>

definition field_text :: "sc_mountinfo_entry \<Rightarrow> nat option \<Rightarrow> string" where
  "field_text e f = (case field_str e f of None \<Rightarrow> [] | Some s \<Rightarrow> s)"

fun join_with_spaces :: "string list \<Rightarrow> string" where
  "join_with_spaces [] = []"
| "join_with_spaces [s] = s"
| "join_with_spaces (s # t # ts) = s @ CHR '' '' # join_with_spaces (t # ts)"

definition reassemble :: "sc_mountinfo_entry \<Rightarrow> string" where
  "reassemble e =
     show_int (sint (mount_id e)) @ '' '' @ show_int (sint (parent_id e)) @ '' ''
       @ show_dec (uint (dev_major e)) @ '':'' @ show_dec (uint (dev_minor e)) @ '' ''
       @ join_with_spaces
           ([field_text e (root e), field_text e (mount_dir e), field_text e (mount_opts e)]
            @ (if field_text e (optional_fields e) = [] then []
               else [field_text e (optional_fields e)])
            @ [''-'', field_text e (fs_type e), field_text e (mount_source e),
               field_text e (super_opts e)])"

subsection \<open>Lines of the output of veritysetup\<close>

text \<open>
  The lines of a text, as \<open>ScanLines\<close> cuts them when no line is too long: the runs
  between line feeds, a last run without a line feed included when it is not empty.
\<close>

function raw_lines :: "string \<Rightarrow> string list" where
  "raw_lines data =
     (if data = [] then []
      else takeWhile (\<lambda>c. c \<noteq> CHR 0x0A) data
             # raw_lines (drop (length (takeWhile (\<lambda>c. c \<noteq> CHR 0x0A) data) + 1) data))"
  by pat_completeness auto
termination
  by (relation "measure length") auto

declare raw_lines.simps [simp del]

text \<open>The lines that begin with \<open>Root hash\<close>, and the text after the first colon of a line.\<close>

definition root_hash_lines :: "string \<Rightarrow> string list" where
  "root_hash_lines data = filter (\<lambda>l. HasPrefix l ''Root hash'') (map dropCR (raw_lines data))"

definition after_colon :: "string \<Rightarrow> string" where
  "after_colon l = drop 1 (dropWhile (\<lambda>c. c \<noteq> CHR '':'') l)"

text \<open>The trimmed value of the last such line, or the given string when there is none.\<close>

definition last_root_hash :: "string \<Rightarrow> string \<Rightarrow> string" where
  "last_root_hash data rootHash =
     (case root_hash_lines data of [] \<Rightarrow> rootHash | l # ls \<Rightarrow> TrimSpace (after_colon (last (l # ls))))"

text \<open>
  The extraction as the specification words it: the value following the first line
  beginning with \<open>Root hash\<close>, taken after the first colon and trimmed.
\<close>

definition first_root_hash_value :: "string \<Rightarrow> string option" where
  "first_root_hash_value output =
     (case root_hash_lines output of [] \<Rightarrow> None | l # ls \<Rightarrow> Some (TrimSpace (after_colon l)))"

text \<open>Two sample outputs: one as the tool prints it, one with a line of 65536 bytes.\<close>

definition veritysetup_output :: string where
  "veritysetup_output =
     ''VERITY header information for snap.verity'' @ CHR 0x0A #
     ''Hash type:        1'' @ CHR 0x0A #
     ''Root hash:      '' @ CHR 0x09 # ''e48e3514'' @ CHR 0x0D # CHR 0x0A # []"

definition long_output :: string where
  "long_output = ''Root hash: abc'' @ CHR 0x0A # replicate 65536 (CHR ''a'')"

section \<open>Properties of the mountinfo parser\<close>

subsection \<open>One call of parse_next_string_field\<close>

lemma sscanf_s_Some:
  assumes "sscanf_s s = Some (tok, d)"
  shows "tok = takeWhile (\<lambda>c. \<not> isspace c) (dropWhile isspace s)"
    and "tok \<noteq> []"
    and "d = length (takeWhile isspace s) + length tok"
    and "d \<le> length s"
    and "s \<noteq> []"
proof -
  from assms show t: "tok = takeWhile (\<lambda>c. \<not> isspace c) (dropWhile isspace s)"
    and "tok \<noteq> []" and d: "d = length (takeWhile isspace s) + length tok"
    by (auto simp: sscanf_s_def Let_def split: if_splits)
  have "length s = length (takeWhile isspace s) + length (dropWhile isspace s)"
    by (metis length_append takeWhile_dropWhile_id)
  moreover have "length tok \<le> length (dropWhile isspace s)"
    unfolding t by (rule length_takeWhile_le)
  ultimately show "d \<le> length s"
    using d by simp
  from assms show "s \<noteq> []"
    by (auto simp: sscanf_s_def)
qed

lemma char_at_space_less: "char_at line i = CHR '' '' \<Longrightarrow> i < length line"
  by (auto simp: char_at_def split: if_splits)

lemma parse_next_string_field_cases:
  assumes "parse_next_string_field entry line offset = Some (f, entry', offset')"
  obtains (empty) "char_at line offset = CHR '' ''" "f = offset"
      "entry' = entry\<lparr>line_buf := poke (line_buf entry) offset NUL\<rparr>" "offset' = offset + 1"
  | (token) tok d where "char_at line offset \<noteq> CHR '' ''"
      "sscanf_s (drop offset line) = Some (tok, d)" "f = offset"
      "entry' = entry\<lparr>line_buf := store_str (line_buf entry) offset tok\<rparr>"
      "offset' = (if char_at line (offset + d) = CHR '' '' then offset + d + 1 else offset + d)"
  using assms
  by (auto simp: parse_next_string_field_def Let_def split: if_splits option.splits)

lemma peek_poke [simp]: "peek (poke b i c) j = (if j = i then c else peek b j)"
  by (auto simp: peek_def poke_def nth_append nth_list_update)

lemma length_poke [simp]: "length (poke b i c) = max (length b) (Suc i)"
  by (auto simp: poke_def)

lemma length_store_str: "length (store_str b p s) = max (length b) (p + length s + 1)"
  by (induction s arbitrary: b p) auto

lemma peek_store_str_other: "i < p \<or> p + length s < i \<Longrightarrow> peek (store_str b p s) i = peek b i"
  by (induction s arbitrary: b p) auto

lemma peek_store_str:
  "i \<le> length s \<Longrightarrow> peek (store_str b p s) (p + i) = (if i < length s then s ! i else NUL)"
proof (induction s arbitrary: b p i)
  case Nil
  then show ?case by simp
next
  case (Cons c cs)
  show ?case
  proof (cases i)
    case 0
    then show ?thesis
      by (simp add: peek_store_str_other)
  next
    case (Suc j)
    have "peek (store_str (poke b p c) (Suc p) cs) (Suc p + j)
        = (if j < length cs then cs ! j else NUL)"
      using Cons.prems Suc by (intro Cons.IH) simp
    then show ?thesis
      using Suc by simp
  qed
qed

lemma parse_next_string_field_effect:
  assumes "parse_next_string_field entry line offset = Some (f, entry', offset')"
  shows "f = offset \<and> offset < offset' \<and> offset' \<le> length line
      \<and> length (line_buf entry') \<le> max (length (line_buf entry)) (offset' + 1)
      \<and> (\<forall>i. i < offset \<longrightarrow> peek (line_buf entry') i = peek (line_buf entry) i)
      \<and> (\<forall>i. offset' < i \<longrightarrow> peek (line_buf entry') i = peek (line_buf entry) i)
      \<and> (\<forall>b. entry'\<lparr>line_buf := b\<rparr> = entry\<lparr>line_buf := b\<rparr>)"
  using assms
proof (cases rule: parse_next_string_field_cases)
  case empty
  then show ?thesis
    using char_at_space_less [of line offset] by auto
next
  case (token tok d)
  from sscanf_s_Some(5) [OF token(2)] have "offset < length line"
    by simp
  with sscanf_s_Some(2,3,4) [OF token(2)] have tok: "tok \<noteq> []" "length tok \<le> d"
    and d: "offset + d \<le> length line"
    by simp_all
  have o': "offset + d \<le> offset'" "offset' \<le> length line"
    using token(5) d char_at_space_less [of line "offset + d"] by (auto split: if_splits)
  from tok o' token(3,4) show ?thesis
    by (cases tok) (auto simp: length_store_str peek_store_str_other)
qed

lemma parse_next_string_field_bounds:
  assumes "parse_next_string_field entry line offset = Some (f, entry', offset')"
  shows "f = offset" and "offset < offset'" and "offset' \<le> length line"
    and "length (line_buf entry') \<le> max (length (line_buf entry)) (offset' + 1)"
    and "\<And>i. i < offset \<Longrightarrow> peek (line_buf entry') i = peek (line_buf entry) i"
    and "\<And>i. offset' < i \<Longrightarrow> peek (line_buf entry') i = peek (line_buf entry) i"
    and "\<And>b. entry'\<lparr>line_buf := b\<rparr> = entry\<lparr>line_buf := b\<rparr>"
  using parse_next_string_field_effect [OF assms] by blast+

subsection \<open>The loop, one step at a time\<close>

lemma opt_fields_loop_fail:
  "parse_next_string_field entry line offset = None
    \<Longrightarrow> opt_fields_loop entry line offset field_num = Inl (line_buf entry)"
  by (subst opt_fields_loop.simps) simp

lemma opt_fields_loop_break:
  "parse_next_string_field entry line offset = Some (f, entry', offset')
    \<Longrightarrow> peek (line_buf entry') f = CHR ''-'' \<and> peek (line_buf entry') (f + 1) = NUL
    \<Longrightarrow> opt_fields_loop entry line offset field_num
        = Inr (entry'\<lparr>line_buf := poke (line_buf entry') f NUL\<rparr>, offset')"
  by (subst opt_fields_loop.simps) simp

lemma opt_fields_loop_continue:
  "parse_next_string_field entry line offset = Some (f, entry', offset')
    \<Longrightarrow> \<not> (peek (line_buf entry') f = CHR ''-'' \<and> peek (line_buf entry') (f + 1) = NUL)
    \<Longrightarrow> opt_fields_loop entry line offset field_num
        = opt_fields_loop
            (if field_num > 0
             then entry'\<lparr>line_buf := poke (line_buf entry') (f - 1) (CHR '' '')\<rparr> else entry')
            line offset' (field_num + 1)"
  by (subst opt_fields_loop.simps) (simp only: option.case prod.case if_False)

subsection \<open>Every write is inside the buffer\<close>

text \<open>
  The write at \<open>opt_field[-1]\<close> is made from the second iteration of the loop on. In every
  call the loop makes of itself with \<open>field_num > 0\<close> the offset, which is where
  \<open>opt_field\<close> points, is positive, so the byte before it is in the buffer.
\<close>

lemma opt_field_positive:
  assumes "opt_fields_loop_rel\<^sup>*\<^sup>* (entry, line, offset, field_num) (entry0, line0, offset0, 0)"
    and "0 < field_num"
  shows "0 < offset"
proof -
  have "field_num' = 0 \<or> 0 < offset'"
    if "opt_fields_loop_rel\<^sup>*\<^sup>* c (entry0, line0, offset0, 0)"
      and "c = (entry', line', offset', field_num')"
    for c entry' line' offset' and field_num' :: nat
    using that
  proof (induction arbitrary: entry' line' offset' field_num' rule: converse_rtranclp_induct)
    case base
    then show ?case by simp
  next
    case (step y z)
    from step.hyps(1) step.prems show ?case
      by (cases rule: opt_fields_loop_rel.cases)
        (auto dest: parse_next_string_field_bounds(2))
  qed
  with assms show ?thesis
    by blast
qed

lemma opt_fields_loop_length:
  assumes "length (line_buf entry) \<le> length line + 1"
  shows "case opt_fields_loop entry line offset field_num of
           Inl b \<Rightarrow> length b \<le> length line + 1
         | Inr (entry', offset') \<Rightarrow> length (line_buf entry') \<le> length line + 1"
  using assms
proof (induction "length line - offset" arbitrary: entry offset field_num rule: less_induct)
  case less
  show ?case
  proof (cases "parse_next_string_field entry line offset")
    case None
    with less.prems show ?thesis
      by (simp add: opt_fields_loop_fail)
  next
    case (Some r)
    then obtain f e1 o1 where r: "parse_next_string_field entry line offset = Some (f, e1, o1)"
      by (cases r) auto
    note b = parse_next_string_field_bounds [OF r]
    from b(2,3,4) less.prems have d1: "length (line_buf e1) \<le> length line + 1"
      by simp
    show ?thesis
    proof (cases "peek (line_buf e1) f = CHR ''-'' \<and> peek (line_buf e1) (f + 1) = NUL")
      case True
      with r d1 b(1,2,3) show ?thesis
        by (simp add: opt_fields_loop_break)
    next
      case False
      let ?e2 = "if field_num > 0
                 then e1\<lparr>line_buf := poke (line_buf e1) (f - 1) (CHR '' '')\<rparr> else e1"
      have d2: "length (line_buf ?e2) \<le> length line + 1"
        using d1 b(1,2,3) by auto
      have "length line - o1 < length line - offset"
        using b(2,3) by simp
      from less.hyps [OF this d2, of "field_num + 1"] show ?thesis
        by (simp add: opt_fields_loop_continue [OF r False])
    qed
  qed
qed

lemma parse_next_length:
  assumes "parse_next_string_field entry line offset = Some (f, entry', offset')"
    and "length (line_buf entry) \<le> length line + 1"
  shows "length (line_buf entry') \<le> length line + 1"
  using parse_next_string_field_bounds(2,3,4) [OF assms(1)] assms(2) by simp

lemma parse_leading_fields_length:
  assumes "length (line_buf entry) \<le> length line + 1"
  shows "case parse_leading_fields entry line of
           Inl b \<Rightarrow> length b \<le> length line + 1
         | Inr (entry', offset') \<Rightarrow> length (line_buf entry') \<le> length line + 1"
proof (cases "sscanf_header line")
  case None
  with assms show ?thesis
    by (simp add: parse_leading_fields_def)
next
  case (Some h)
  then obtain mid pid mj mn d where h: "sscanf_header line = Some (mid, pid, mj, mn, d)"
    by (cases h) auto
  define e0 where "e0 = entry\<lparr>mount_id := mid, parent_id := pid, dev_major := mj, dev_minor := mn\<rparr>"
  have d0: "length (line_buf e0) \<le> length line + 1"
    using assms by (simp add: e0_def)
  show ?thesis
  proof (cases "parse_next_string_field e0 line d")
    case None
    with h d0 show ?thesis
      by (simp add: parse_leading_fields_def e0_def)
  next
    case (Some r1)
    then obtain f1 e1 o1 where r1: "parse_next_string_field e0 line d = Some (f1, e1, o1)"
      by (cases r1) auto
    have d1: "length (line_buf (e1\<lparr>root := Some f1\<rparr>)) \<le> length line + 1"
      using parse_next_length [OF r1 d0] by simp
    show ?thesis
    proof (cases "parse_next_string_field (e1\<lparr>root := Some f1\<rparr>) line o1")
      case None
      with h r1 d1 show ?thesis
        by (simp add: parse_leading_fields_def e0_def)
    next
      case (Some r2)
      then obtain f2 e2 o2
        where r2: "parse_next_string_field (e1\<lparr>root := Some f1\<rparr>) line o1 = Some (f2, e2, o2)"
        by (cases r2) auto
      have d2: "length (line_buf (e2\<lparr>mount_dir := Some f2\<rparr>)) \<le> length line + 1"
        using parse_next_length [OF r2 d1] by simp
      show ?thesis
      proof (cases "parse_next_string_field (e2\<lparr>mount_dir := Some f2\<rparr>) line o2")
        case None
        with h r1 r2 d2 show ?thesis
          by (simp add: parse_leading_fields_def e0_def)
      next
        case (Some r3)
        then obtain f3 e3 o3
          where r3: "parse_next_string_field (e2\<lparr>mount_dir := Some f2\<rparr>) line o2 = Some (f3, e3, o3)"
          by (cases r3) auto
        from parse_next_length [OF r3 d2] h r1 r2 r3 show ?thesis
          by (simp add: parse_leading_fields_def e0_def)
      qed
    qed
  qed
qed

lemma parse_trailing_fields_length:
  assumes d0: "length (line_buf entry) \<le> length line + 1"
  shows "written (parse_trailing_fields entry line offset) \<subseteq> {..<length line + 1}"
proof (cases "parse_next_string_field entry line offset")
  case None
  with d0 show ?thesis
    by (simp add: parse_trailing_fields_def written_def)
next
  case (Some r1)
  then obtain f1 e1 o1 where r1: "parse_next_string_field entry line offset = Some (f1, e1, o1)"
    by (cases r1) auto
  have d1: "length (line_buf (e1\<lparr>fs_type := Some f1\<rparr>)) \<le> length line + 1"
    using parse_next_length [OF r1 d0] by simp
  show ?thesis
  proof (cases "parse_next_string_field (e1\<lparr>fs_type := Some f1\<rparr>) line o1")
    case None
    with r1 d1 show ?thesis
      by (simp add: parse_trailing_fields_def written_def)
  next
    case (Some r2)
    then obtain f2 e2 o2
      where r2: "parse_next_string_field (e1\<lparr>fs_type := Some f1\<rparr>) line o1 = Some (f2, e2, o2)"
      by (cases r2) auto
    have d2: "length (line_buf (e2\<lparr>mount_source := Some f2\<rparr>)) \<le> length line + 1"
      using parse_next_length [OF r2 d1] by simp
    show ?thesis
    proof (cases "parse_next_string_field (e2\<lparr>mount_source := Some f2\<rparr>) line o2")
      case None
      with r1 r2 d2 show ?thesis
        by (simp add: parse_trailing_fields_def written_def)
    next
      case (Some r3)
      then obtain f3 e3 o3
        where r3: "parse_next_string_field (e2\<lparr>mount_source := Some f2\<rparr>) line o2 = Some (f3, e3, o3)"
        by (cases r3) auto
      from parse_next_length [OF r3 d2] r1 r2 r3 show ?thesis
        by (simp add: parse_trailing_fields_def written_def)
    qed
  qed
qed

subsection \<open>The loop ends only at a separator\<close>

lemma ws_tokens_space: "isspace c \<Longrightarrow> ws_tokens (c # s) = ws_tokens s"
  by (subst ws_tokens.simps, subst (2) ws_tokens.simps) simp

lemma ws_tokens_sscanf_s:
  assumes "sscanf_s s = Some (tok, d)"
  shows "ws_tokens s = tok # ws_tokens (drop d s)"
proof -
  define r where "r = dropWhile isspace s"
  note f = sscanf_s_Some [OF assms]
  have tok: "tok = takeWhile (\<lambda>c. \<not> isspace c) r" and ne: "r \<noteq> []"
    using f(1,2) unfolding r_def by (cases "dropWhile isspace s"; simp)+
  have "s = takeWhile isspace s @ tok @ dropWhile (\<lambda>c. \<not> isspace c) r"
    by (simp add: tok r_def)
  then have "drop d s = drop d (takeWhile isspace s @ tok @ dropWhile (\<lambda>c. \<not> isspace c) r)"
    by simp
  also have "\<dots> = dropWhile (\<lambda>c. \<not> isspace c) r"
    by (simp add: f(3))
  finally show ?thesis
    using ne by (subst ws_tokens.simps) (simp add: r_def tok)
qed

lemma strcmp_separator:
  assumes "tok \<noteq> []" and "NUL \<notin> set tok"
  shows "peek (store_str b p tok) p = CHR ''-'' \<and> peek (store_str b p tok) (p + 1) = NUL
      \<longleftrightarrow> tok = ''-''"
proof (cases tok)
  case Nil
  with assms show ?thesis by simp
next
  case (Cons c cs)
  have p0: "peek (store_str b p tok) p = c"
    using peek_store_str [of 0 tok b p] Cons by simp
  have p1: "peek (store_str b p tok) (p + 1) = (if cs = [] then NUL else hd cs)"
    using peek_store_str [of 1 tok b p] Cons by (cases cs) simp_all
  from assms(2) Cons have "cs \<noteq> [] \<Longrightarrow> hd cs \<noteq> NUL"
    by (cases cs) auto
  with p0 p1 Cons show ?thesis
    by auto
qed

lemma drop_char_at_space:
  assumes "char_at line i = CHR '' ''"
  shows "drop i line = CHR '' '' # drop (i + 1) line"
proof -
  from assms have "i < length line" and "line ! i = CHR '' ''"
    by (auto simp: char_at_def split: if_splits)
  then show ?thesis
    by (simp add: Cons_nth_drop_Suc [symmetric])
qed

lemma isspace_space [simp]: "isspace (CHR '' '')"
  by (simp add: isspace_def)

lemma opt_fields_loop_break_separator:
  assumes "NUL \<notin> set line"
    and "opt_fields_loop entry line offset field_num = Inr r"
  shows "''-'' \<in> set (ws_tokens (drop offset line))"
  using assms(2)
proof (induction "length line - offset" arbitrary: entry offset field_num rule: less_induct)
  case less
  show ?case
  proof (cases "parse_next_string_field entry line offset")
    case None
    with less.prems show ?thesis
      by (simp add: opt_fields_loop_fail)
  next
    case (Some x)
    then obtain f e1 o1 where p: "parse_next_string_field entry line offset = Some (f, e1, o1)"
      by (cases x) auto
    note b = parse_next_string_field_bounds [OF p]
    have m: "length line - o1 < length line - offset"
      using b(2,3) by simp
    let ?e2 = "if field_num > 0
               then e1\<lparr>line_buf := poke (line_buf e1) (f - 1) (CHR '' '')\<rparr> else e1"
    from p show ?thesis
    proof (cases rule: parse_next_string_field_cases)
      case empty
      then have no: "\<not> (peek (line_buf e1) f = CHR ''-'' \<and> peek (line_buf e1) (f + 1) = NUL)"
        by simp
      from less.prems have "opt_fields_loop ?e2 line o1 (field_num + 1) = Inr r"
        by (simp add: opt_fields_loop_continue [OF p no])
      from less.hyps [OF m this] have "''-'' \<in> set (ws_tokens (drop (offset + 1) line))"
        using empty by simp
      then show ?thesis
        by (simp add: drop_char_at_space [OF empty(1)] ws_tokens_space)
    next
      case (token tok d)
      note s = sscanf_s_Some [OF token(2)]
      have "set tok \<subseteq> set (drop offset line)"
        unfolding s(1) by (auto dest!: set_takeWhileD set_dropWhileD)
      then have "set tok \<subseteq> set line"
        using set_drop_subset [of offset line] by blast
      with assms(1) have nn: "NUL \<notin> set tok"
        by auto
      have w: "ws_tokens (drop offset line) = tok # ws_tokens (drop (offset + d) line)"
        using ws_tokens_sscanf_s [OF token(2)] by (simp add: add.commute)
      have w': "ws_tokens (drop (offset + d) line) = ws_tokens (drop o1 line)"
      proof (cases "char_at line (offset + d) = CHR '' ''")
        case True
        with token(5) drop_char_at_space [OF True] show ?thesis
          by (simp add: ws_tokens_space)
      next
        case False
        with token(5) show ?thesis
          by simp
      qed
      show ?thesis
      proof (cases "peek (line_buf e1) f = CHR ''-'' \<and> peek (line_buf e1) (f + 1) = NUL")
        case True
        with strcmp_separator [OF s(2) nn, of "line_buf entry" offset] token(3,4)
        have "tok = ''-''"
          by simp
        with w show ?thesis
          by simp
      next
        case False
        from less.prems have "opt_fields_loop ?e2 line o1 (field_num + 1) = Inr r"
          by (simp add: opt_fields_loop_continue [OF p False])
        from less.hyps [OF m this] w w' show ?thesis
          by simp
      qed
    qed
  qed
qed

lemma read_loop_fail:
  "Line line \<in> set stream \<Longrightarrow> sc_parse_mountinfo_entry line = None
    \<Longrightarrow> read_loop stream info = None"
proof (induction stream arbitrary: info)
  case Nil
  then show ?case by simp
next
  case (Cons ev stream)
  then show ?case
    by (cases ev) (auto split: option.splits)
qed

subsection \<open>A line feed after the line\<close>

lemma isspace_LF [simp]: "isspace (CHR 0x0A)"
  by (simp add: isspace_def)

lemma not_isdigit_LF [simp]: "\<not> isdigit (CHR 0x0A)"
  by (simp add: isdigit_def)

lemma sscanf_s_LF: "sscanf_s (s @ [CHR 0x0A]) = sscanf_s s"
proof (cases "\<forall>c\<in>set s. isspace c")
  case True
  then have dw: "dropWhile isspace s = []"
    and dw': "dropWhile isspace (s @ [CHR 0x0A]) = []"
    by (simp_all add: dropWhile_append)
  show ?thesis
    unfolding sscanf_s_def dw dw' by simp
next
  case False
  then have a: "dropWhile isspace (s @ [CHR 0x0A]) = dropWhile isspace s @ [CHR 0x0A]"
    and b: "takeWhile isspace (s @ [CHR 0x0A]) = takeWhile isspace s"
    by (auto simp: dropWhile_append takeWhile_append)
  have c: "takeWhile (\<lambda>c. \<not> isspace c) (dropWhile isspace s @ [CHR 0x0A])
      = takeWhile (\<lambda>c. \<not> isspace c) (dropWhile isspace s)"
    by (simp add: takeWhile_tail)
  show ?thesis
    unfolding sscanf_s_def a b c ..
qed

lemma scan_number_LF:
  "scan_number (s @ [CHR 0x0A])
    = map_option (\<lambda>(neg, mag, r). (neg, mag, r @ [CHR 0x0A])) (scan_number s)"
proof (cases "dropWhile isspace s")
  case Nil
  then have "\<forall>c\<in>set s. isspace c"
    by simp
  then have dw': "dropWhile isspace (s @ [CHR 0x0A]) = []"
    by (simp add: dropWhile_append)
  show ?thesis
    unfolding scan_number_def Nil dw' by simp
next
  case (Cons c cs)
  then have "\<not> (\<forall>c\<in>set s. isspace c)"
    by (metis dropWhile_eq_Nil_conv list.distinct(1))
  then have d: "dropWhile isspace (s @ [CHR 0x0A]) = (c # cs) @ [CHR 0x0A]"
    using Cons by (simp add: dropWhile_append)
  have t: "takeWhile isdigit (xs @ [CHR 0x0A]) = takeWhile isdigit xs"
    and d': "dropWhile isdigit (xs @ [CHR 0x0A]) = dropWhile isdigit xs @ [CHR 0x0A]" for xs
    by (simp_all add: takeWhile_tail dropWhile_append3)
  show ?thesis
    unfolding scan_number_def d Cons
    using t [of cs] t [of "c # cs"] d' [of cs] d' [of "c # cs"]
    by (simp add: Let_def del: takeWhile.simps dropWhile.simps)
qed


lemma scan_number_shorter:
  assumes "scan_number s = Some (neg, mag, r)"
  shows "length r < length s"
proof -
  let ?s1 = "dropWhile isspace s"
  let ?s2 = "case ?s1 of [] \<Rightarrow> []
      | c # cs \<Rightarrow> if c = CHR ''-'' \<or> c = CHR ''+'' then cs else ?s1"
  from assms have ds: "takeWhile isdigit ?s2 \<noteq> []" and r: "r = dropWhile isdigit ?s2"
    by (auto simp: scan_number_def Let_def split: if_splits)
  have "length ?s2 \<le> length ?s1"
    by (auto split: list.splits)
  moreover have "length ?s1 \<le> length s"
    by (rule length_dropWhile_le)
  moreover have "length ?s2 = length (takeWhile isdigit ?s2) + length r"
    unfolding r by (metis length_append takeWhile_dropWhile_id)
  ultimately show ?thesis
    using ds by (cases "takeWhile isdigit ?s2") auto
qed

lemma sscanf_header_offset:
  assumes "sscanf_header l = Some (a, b, c, d, off)"
  shows "off \<le> length l"
  using assms by (auto simp: sscanf_header_def split: option.splits list.splits if_splits)

lemma sscanf_header_LF:
  "sscanf_header (l @ [CHR 0x0A])
    = map_option (\<lambda>(a, b, c, d, off). (a, b, c, d, if off = length l then Suc off else off))
        (sscanf_header l)"
proof (cases "sscanf_header l")
  case None
  then show ?thesis
    by (auto simp: sscanf_header_def scan_number_LF split: option.splits list.splits if_splits)
next
  case (Some h)
  then obtain n1 m1 r1 n2 m2 r2 n3 m3 r3 n4 m4 r4
    where s1: "scan_number l = Some (n1, m1, r1)"
      and s2: "scan_number r1 = Some (n2, m2, r2)"
      and s3: "scan_number r2 = Some (n3, m3, CHR '':'' # r3)"
      and s4: "scan_number r3 = Some (n4, m4, r4)"
    by (auto simp: sscanf_header_def split: option.splits list.splits if_splits)
  from scan_number_shorter [OF s1] scan_number_shorter [OF s2] scan_number_shorter [OF s3]
    scan_number_shorter [OF s4]
  have len: "length r4 < length l"
    by simp
  have dl: "length (dropWhile isspace r4) \<le> length r4"
    by (rule length_dropWhile_le)
  have L: "sscanf_header (l @ [CHR 0x0A])
      = Some (conv_d n1 m1, conv_d n2 m2, conv_u n3 m3, conv_u n4 m4,
              length l + 1 - length (dropWhile isspace (r4 @ [CHR 0x0A])))"
    using s1 s2 s3 s4 by (simp add: sscanf_header_def scan_number_LF)
  have R: "sscanf_header l
      = Some (conv_d n1 m1, conv_d n2 m2, conv_u n3 m3, conv_u n4 m4,
              length l - length (dropWhile isspace r4))"
    using s1 s2 s3 s4 by (simp add: sscanf_header_def)
  show ?thesis
  proof (cases "\<forall>c\<in>set r4. isspace c")
    case True
    then have dw: "dropWhile isspace r4 = []"
      and dw': "dropWhile isspace (r4 @ [CHR 0x0A]) = []"
      by (simp_all add: dropWhile_append)
    show ?thesis
      unfolding L R dw dw' by simp
  next
    case False
    then have dw': "dropWhile isspace (r4 @ [CHR 0x0A]) = dropWhile isspace r4 @ [CHR 0x0A]"
      by (simp add: dropWhile_append)
    from False have "dropWhile isspace r4 \<noteq> []"
      by simp
    then have "0 < length (dropWhile isspace r4)"
      by simp
    with dl len have "length l - length (dropWhile isspace r4) \<noteq> length l"
      by linarith
    then show ?thesis
      unfolding L R dw' by simp
  qed
qed

lemma char_at_LF:
  "i \<le> length l \<Longrightarrow> char_at (l @ [CHR 0x0A]) i = CHR '' '' \<longleftrightarrow> char_at l i = CHR '' ''"
  by (auto simp: char_at_def nth_append)

lemma parse_next_string_field_at_end:
  "length l \<le> offset \<Longrightarrow> parse_next_string_field entry l offset = None"
  by (simp add: parse_next_string_field_def char_at_def sscanf_s_def)

lemma parse_next_string_field_LF:
  assumes "offset \<le> length l"
  shows "parse_next_string_field entry (l @ [CHR 0x0A]) offset
    = parse_next_string_field entry l offset"
proof (cases "sscanf_s (drop offset l)")
  case None
  with assms show ?thesis
    by (simp add: parse_next_string_field_def char_at_LF sscanf_s_LF)
next
  case (Some x)
  then obtain tok d where s: "sscanf_s (drop offset l) = Some (tok, d)"
    by (cases x) auto
  from sscanf_s_Some(4) [OF s] assms have "offset + d \<le> length l"
    by simp
  with assms s show ?thesis
    by (simp add: parse_next_string_field_def char_at_LF sscanf_s_LF)
qed

lemma opt_fields_loop_LF:
  assumes "offset \<le> length l"
  shows "opt_fields_loop entry (l @ [CHR 0x0A]) offset field_num
    = opt_fields_loop entry l offset field_num"
  using assms
proof (induction "length l - offset" arbitrary: entry offset field_num rule: less_induct)
  case less
  note eq = parse_next_string_field_LF [OF less.prems, of entry]
  show ?case
  proof (cases "parse_next_string_field entry l offset")
    case None
    with eq show ?thesis
      by (simp add: opt_fields_loop_fail)
  next
    case (Some x)
    then obtain f e1 o1 where p: "parse_next_string_field entry l offset = Some (f, e1, o1)"
      by (cases x) auto
    with eq have p': "parse_next_string_field entry (l @ [CHR 0x0A]) offset = Some (f, e1, o1)"
      by simp
    note b = parse_next_string_field_bounds [OF p]
    show ?thesis
    proof (cases "peek (line_buf e1) f = CHR ''-'' \<and> peek (line_buf e1) (f + 1) = NUL")
      case True
      then show ?thesis
        by (simp add: opt_fields_loop_break [OF p True] opt_fields_loop_break [OF p' True])
    next
      case False
      have "length l - o1 < length l - offset"
        using b(2,3) by simp
      from less.hyps [OF this b(3)] show ?thesis
        by (simp add: opt_fields_loop_continue [OF p False] opt_fields_loop_continue [OF p' False])
    qed
  qed
qed

lemma opt_fields_loop_offset:
  "opt_fields_loop entry l offset field_num = Inr (entry', offset') \<Longrightarrow> offset' \<le> length l"
proof (induction "length l - offset" arbitrary: entry offset field_num rule: less_induct)
  case less
  show ?case
  proof (cases "parse_next_string_field entry l offset")
    case None
    with less.prems show ?thesis
      by (simp add: opt_fields_loop_fail)
  next
    case (Some x)
    then obtain f e1 o1 where p: "parse_next_string_field entry l offset = Some (f, e1, o1)"
      by (cases x) auto
    note b = parse_next_string_field_bounds [OF p]
    show ?thesis
    proof (cases "peek (line_buf e1) f = CHR ''-'' \<and> peek (line_buf e1) (f + 1) = NUL")
      case True
      with less.prems b(3) show ?thesis
        by (simp add: opt_fields_loop_break [OF p True])
    next
      case False
      have m: "length l - o1 < length l - offset"
        using b(2,3) by simp
      from less.prems show ?thesis
        unfolding opt_fields_loop_continue [OF p False] by (rule less.hyps [OF m])
    qed
  qed
qed

lemma parse_next_string_field_le:
  "parse_next_string_field entry l offset = Some (f, entry', offset') \<Longrightarrow> offset' \<le> length l"
  by (rule parse_next_string_field_bounds(3))

lemma parse_trailing_fields_LF:
  assumes "offset \<le> length l"
  shows "parse_trailing_fields entry (l @ [CHR 0x0A]) offset
    = parse_trailing_fields entry l offset"
proof (cases "parse_next_string_field entry l offset")
  case None
  with assms show ?thesis
    by (simp add: parse_trailing_fields_def parse_next_string_field_LF)
next
  case (Some x)
  then obtain f1 e1 o1 where p1: "parse_next_string_field entry l offset = Some (f1, e1, o1)"
    by (cases x) auto
  note le1 = parse_next_string_field_le [OF p1]
  show ?thesis
  proof (cases "parse_next_string_field (e1\<lparr>fs_type := Some f1\<rparr>) l o1")
    case None
    with assms p1 le1 show ?thesis
      by (simp add: parse_trailing_fields_def parse_next_string_field_LF)
  next
    case (Some y)
    then obtain f2 e2 o2
      where p2: "parse_next_string_field (e1\<lparr>fs_type := Some f1\<rparr>) l o1 = Some (f2, e2, o2)"
      by (cases y) auto
    note le2 = parse_next_string_field_le [OF p2]
    from assms p1 le1 p2 le2 show ?thesis
      by (simp add: parse_trailing_fields_def parse_next_string_field_LF)
  qed
qed

lemma parse_leading_fields_steps:
  assumes "parse_leading_fields entry l = Inr (entry', offset')"
  obtains mid pid mj mn d f1 e1 o1 f2 e2 o2 f3 e3
  where "sscanf_header l = Some (mid, pid, mj, mn, d)"
    and "parse_next_string_field
          (entry\<lparr>mount_id := mid, parent_id := pid, dev_major := mj, dev_minor := mn\<rparr>) l d
        = Some (f1, e1, o1)"
    and "parse_next_string_field (e1\<lparr>root := Some f1\<rparr>) l o1 = Some (f2, e2, o2)"
    and "parse_next_string_field (e2\<lparr>mount_dir := Some f2\<rparr>) l o2 = Some (f3, e3, offset')"
    and "entry' = e3\<lparr>mount_opts := Some f3\<rparr>"
  using assms
  by (auto simp: parse_leading_fields_def Let_def split: option.splits)

lemma parse_leading_fields_offset:
  assumes "parse_leading_fields entry l = Inr (entry', offset')"
  shows "offset' \<le> length l"
  using assms
proof (cases rule: parse_leading_fields_steps)
  case (1 mid pid mj mn d f1 e1 o1 f2 e2 o2 f3 e3)
  from parse_next_string_field_le [OF 1(4)] show ?thesis .
qed

lemma parse_leading_fields_LF:
  "parse_leading_fields entry (l @ [CHR 0x0A]) = parse_leading_fields entry l"
proof (cases "sscanf_header l")
  case None
  then show ?thesis
    by (simp add: parse_leading_fields_def sscanf_header_LF)
next
  case (Some h)
  then obtain a b c d off where h: "sscanf_header l = Some (a, b, c, d, off)"
    by (cases h) auto
  note le = sscanf_header_offset [OF h]
  define e0 where "e0 = entry\<lparr>mount_id := a, parent_id := b, dev_major := c, dev_minor := d\<rparr>"
  show ?thesis
  proof (cases "off = length l")
    case True
    with h show ?thesis
      by (simp add: parse_leading_fields_def sscanf_header_LF parse_next_string_field_at_end)
  next
    case False
    show ?thesis
    proof (cases "parse_next_string_field e0 l off")
      case None
      with h le False show ?thesis
        by (simp add: parse_leading_fields_def sscanf_header_LF parse_next_string_field_LF e0_def)
    next
      case (Some x)
      then obtain f1 e1 o1 where p1: "parse_next_string_field e0 l off = Some (f1, e1, o1)"
        by (cases x) auto
      note le1 = parse_next_string_field_le [OF p1]
      show ?thesis
      proof (cases "parse_next_string_field (e1\<lparr>root := Some f1\<rparr>) l o1")
        case None
        with h le False p1 le1 show ?thesis
          by (simp add: parse_leading_fields_def sscanf_header_LF parse_next_string_field_LF
              e0_def)
      next
        case (Some y)
        then obtain f2 e2 o2
          where p2: "parse_next_string_field (e1\<lparr>root := Some f1\<rparr>) l o1 = Some (f2, e2, o2)"
          by (cases y) auto
        note le2 = parse_next_string_field_le [OF p2]
        from h le False p1 le1 p2 le2 show ?thesis
          by (simp add: parse_leading_fields_def sscanf_header_LF parse_next_string_field_LF
              e0_def)
      qed
    qed
  qed
qed

subsection \<open>The offsets fit the type int\<close>

text \<open>
  On a line of at most \<open>INT_MAX\<close> bytes every value the source holds in an \<open>int\<close> is at most
  \<open>INT_MAX\<close>: the count of the first \<open>sscanf\<close>, and at each call of
  \<open>parse_next_string_field\<close> the offset before it, the count of its \<open>sscanf\<close>, their sum
  and the offset after it.
\<close>

lemma offsets_fit_int:
  assumes "int (length line) \<le> INT_MAX"
  shows "sscanf_header line = Some (a, b, c, d, off) \<Longrightarrow> int off \<le> INT_MAX"
    and "parse_next_string_field entry line offset = Some (f, entry', offset')
      \<Longrightarrow> int offset \<le> INT_MAX \<and> int offset' \<le> INT_MAX"
    and "offset \<le> length line \<Longrightarrow> sscanf_s (drop offset line) = Some (tok, offset_delta)
      \<Longrightarrow> int offset_delta \<le> INT_MAX \<and> int (offset + offset_delta) \<le> INT_MAX"
proof -
  show "int off \<le> INT_MAX" if "sscanf_header line = Some (a, b, c, d, off)"
    using sscanf_header_offset [OF that] assms by simp
  show "int offset \<le> INT_MAX \<and> int offset' \<le> INT_MAX"
    if "parse_next_string_field entry line offset = Some (f, entry', offset')"
    using parse_next_string_field_bounds(2,3) [OF that] assms by simp
  show "int offset_delta \<le> INT_MAX \<and> int (offset + offset_delta) \<le> INT_MAX"
    if "offset \<le> length line" and "sscanf_s (drop offset line) = Some (tok, offset_delta)"
  proof -
    from sscanf_s_Some(4) [OF that(2)] that(1) have "offset + offset_delta \<le> length line"
      by simp
    with assms show ?thesis
      by linarith
  qed
qed

subsection \<open>Reading a field back\<close>

text \<open>
  The rest of this section shows what the parser returns on a line of the grammar of
  \<open>mountinfo_line\<close>: each string field is the token of the line at its position.
\<close>

lemma c_str_unfold: "c_str b p = (if peek b p = NUL then [] else peek b p # c_str b (Suc p))"
proof (cases "p < length b")
  case True
  then have "drop p b = b ! p # drop (Suc p) b"
    by (simp add: Cons_nth_drop_Suc)
  with True show ?thesis
    by (simp add: c_str_def peek_def)
next
  case False
  then show ?thesis
    by (simp add: c_str_def peek_def)
qed

lemma holds_c_str: "holds b p s \<Longrightarrow> NUL \<notin> set s \<Longrightarrow> c_str b p = s"
proof (induction s arbitrary: p)
  case Nil
  then show ?case
    by (subst c_str_unfold) (simp add: holds_def)
next
  case (Cons c cs)
  from Cons.prems(1) have h: "peek b p = c" and t: "holds b (Suc p) cs"
    by (fastforce simp: holds_def)+
  from Cons.IH [OF t] Cons.prems(2) h show ?case
    by (subst c_str_unfold) auto
qed

lemma holds_store_str: "holds (store_str b p s) p s"
  by (simp add: holds_def peek_store_str)

lemma holds_frame:
  "holds b p s \<Longrightarrow> (\<And>i. i \<le> p + length s \<Longrightarrow> peek b' i = peek b i) \<Longrightarrow> holds b' p s"
  by (simp add: holds_def)

subsection \<open>A field followed by a space\<close>

lemma drop_append_Cons_nth:
  "drop off line = xs @ y # ys \<Longrightarrow> off + length xs < length line \<and> line ! (off + length xs) = y
     \<and> drop (off + length xs + 1) line = ys"
proof -
  assume a: "drop off line = xs @ y # ys"
  have "drop (length xs) (drop off line) = y # ys"
    unfolding a by simp
  then have d: "drop (off + length xs) line = y # ys"
    by (simp add: add.commute)
  then have "off + length xs < length line"
    by (metis drop_all list.distinct(1) not_le)
  moreover from d have "line ! (off + length xs) = y"
    by (simp add: nth_via_drop)
  moreover have "drop 1 (drop (off + length xs) line) = ys"
    unfolding d by simp
  then have "drop (off + length xs + 1) line = ys"
    by (simp add: add.commute)
  ultimately show ?thesis
    by simp
qed

lemma sscanf_s_token:
  assumes "tok \<noteq> []" and "\<forall>c\<in>set tok. \<not> isspace c" and "rest = [] \<or> isspace (hd rest)"
  shows "sscanf_s (tok @ rest) = Some (tok, length tok)"
proof -
  from assms(1,2) obtain c cs where t: "tok = c # cs" and c: "\<not> isspace c"
    by (cases tok) auto
  have d: "dropWhile isspace (tok @ rest) = tok @ rest" and w: "takeWhile isspace (tok @ rest) = []"
    using t c by simp_all
  have "takeWhile (\<lambda>c. \<not> isspace c) (tok @ rest) = tok"
  proof (cases rest)
    case Nil
    with assms(2) show ?thesis by simp
  next
    case (Cons r rs)
    with assms(3) have "isspace r" by simp
    with assms(2) Cons show ?thesis
      by (simp add: takeWhile_tail)
  qed
  with assms(1) show ?thesis
    unfolding sscanf_s_def d w by simp
qed

lemma parse_next_string_field_space:
  assumes "drop offset line = tok @ CHR '' '' # rest" and "\<forall>c\<in>set tok. \<not> isspace c"
  shows "parse_next_string_field entry line offset
    = Some (offset, entry\<lparr>line_buf := store_str (line_buf entry) offset tok\<rparr>,
            offset + length tok + 1)"
proof (cases tok)
  case Nil
  with assms(1) drop_append_Cons_nth [of offset line "[]" "CHR '' ''" rest]
  have "char_at line offset = CHR '' ''"
    by (simp add: char_at_def)
  with Nil show ?thesis
    by (simp add: parse_next_string_field_def)
next
  case (Cons c cs)
  with assms(2) have c: "c \<noteq> CHR '' ''"
    by auto
  from assms(1) Cons drop_append_Cons_nth [of offset line "[]" c "cs @ CHR '' '' # rest"]
  have "char_at line offset = c"
    by (simp add: char_at_def)
  with c have ne: "char_at line offset \<noteq> CHR '' ''"
    by simp
  have s: "sscanf_s (drop offset line) = Some (tok, length tok)"
    unfolding assms(1) using Cons assms(2) by (intro sscanf_s_token) simp_all
  from drop_append_Cons_nth [OF assms(1)] have "char_at line (offset + length tok) = CHR '' ''"
    by (simp add: char_at_def)
  with ne s show ?thesis
    by (simp add: parse_next_string_field_def)
qed

lemma parse_next_string_field_last:
  assumes "drop offset line = tok @ trailer" and "\<forall>c\<in>set tok. \<not> isspace c"
    and "tok \<noteq> [] \<and> (trailer = [] \<or> isspace (hd trailer))
         \<or> trailer \<noteq> [] \<and> hd trailer = CHR '' ''"
  shows "parse_next_string_field entry line offset
    = Some (offset, entry\<lparr>line_buf := store_str (line_buf entry) offset tok\<rparr>,
            if char_at line (offset + length tok) = CHR '' '' then offset + length tok + 1
            else offset + length tok)"
proof (cases "trailer \<noteq> [] \<and> hd trailer = CHR '' ''")
  case True
  then obtain rest where "trailer = CHR '' '' # rest"
    by (cases trailer) auto
  with assms(1) have d: "drop offset line = tok @ CHR '' '' # rest"
    by simp
  from drop_append_Cons_nth [OF d] have "char_at line (offset + length tok) = CHR '' ''"
    by (simp add: char_at_def)
  with parse_next_string_field_space [OF d assms(2)] show ?thesis
    by simp
next
  case False
  with assms(3) have ne: "tok \<noteq> []" and tr: "trailer = [] \<or> isspace (hd trailer)"
    by auto
  from ne assms(2) obtain c cs where t: "tok = c # cs" and "\<not> isspace c"
    by (cases tok) auto
  then have c: "c \<noteq> CHR '' ''"
    by auto
  from assms(1) t drop_append_Cons_nth [of offset line "[]" c "cs @ trailer"]
  have "char_at line offset = c"
    by (simp add: char_at_def)
  with c have n: "char_at line offset \<noteq> CHR '' ''"
    by simp
  have s: "sscanf_s (drop offset line) = Some (tok, length tok)"
    unfolding assms(1) using ne assms(2) tr by (rule sscanf_s_token)
  from n s show ?thesis
    by (simp add: parse_next_string_field_def Let_def)
qed

subsection \<open>The loop on well-formed optional fields\<close>

lemma strcmp_not_separator:
  assumes "token t" and "t \<noteq> ''-''"
  shows "\<not> (peek (store_str b p t) p = CHR ''-'' \<and> peek (store_str b p t) (p + 1) = NUL)"
proof (cases t)
  case Nil
  then show ?thesis by simp
next
  case (Cons c cs)
  with assms(1) have "t \<noteq> []" and "NUL \<notin> set t"
    by (auto simp: token_def)
  from strcmp_separator [OF this] assms(2) show ?thesis
    by simp
qed

lemma opt_fields_loop_rest:
  assumes "drop offset line = concat (map (\<lambda>t. t @ '' '') opts) @ CHR ''-'' # CHR '' '' # rest"
    and "\<forall>t\<in>set opts. token t \<and> t \<noteq> ''-''"
    and "0 < field_num"
    and "p0 + length acc + 1 = offset"
    and "holds (line_buf entry) p0 acc"
  shows "\<exists>b. opt_fields_loop entry line offset field_num
        = Inr (entry\<lparr>line_buf := b\<rparr>,
               offset + length (concat (map (\<lambda>t. t @ '' '') opts)) + 2)
      \<and> holds b p0 (acc @ concat (map (\<lambda>t. CHR '' '' # t) opts))
      \<and> (\<forall>i<p0. peek b i = peek (line_buf entry) i)"
  using assms
proof (induction opts arbitrary: entry offset field_num acc)
  case Nil
  let ?b1 = "store_str (line_buf entry) offset ''-''"
  from Nil.prems(1) have d: "drop offset line = ''-'' @ CHR '' '' # rest"
    by simp
  have p: "parse_next_string_field entry line offset
      = Some (offset, entry\<lparr>line_buf := ?b1\<rparr>, offset + length ''-'' + 1)"
    by (rule parse_next_string_field_space [OF d]) (simp add: isspace_def)
  have br: "peek (line_buf (entry\<lparr>line_buf := ?b1\<rparr>)) offset = CHR ''-''
      \<and> peek (line_buf (entry\<lparr>line_buf := ?b1\<rparr>)) (offset + 1) = NUL"
    by simp
  have "holds (poke ?b1 offset NUL) p0 acc"
    using Nil.prems(5)
    by (rule holds_frame) (use Nil.prems(4) in auto)
  moreover have "\<forall>i<p0. peek (poke ?b1 offset NUL) i = peek (line_buf entry) i"
    using Nil.prems(4) by auto
  ultimately show ?case
    by (intro exI [of _ "poke ?b1 offset NUL"]) (simp add: opt_fields_loop_break [OF p br])
next
  case (Cons t ts)
  let ?b1 = "store_str (line_buf entry) offset t"
  let ?b2 = "poke ?b1 (offset - 1) (CHR '' '')"
  let ?rest = "concat (map (\<lambda>t. t @ '' '') ts) @ CHR ''-'' # CHR '' '' # rest"
  from Cons.prems(2) have tk: "token t" and ne: "t \<noteq> ''-''"
    and ts: "\<forall>t\<in>set ts. token t \<and> t \<noteq> ''-''"
    by simp_all
  from Cons.prems(1) have d: "drop offset line = t @ CHR '' '' # ?rest"
    by simp
  from tk have sp: "\<forall>c\<in>set t. \<not> isspace c"
    by (simp add: token_def)
  have p: "parse_next_string_field entry line offset
      = Some (offset, entry\<lparr>line_buf := ?b1\<rparr>, offset + length t + 1)"
    by (rule parse_next_string_field_space [OF d sp])
  have nb: "\<not> (peek (line_buf (entry\<lparr>line_buf := ?b1\<rparr>)) offset = CHR ''-''
      \<and> peek (line_buf (entry\<lparr>line_buf := ?b1\<rparr>)) (offset + 1) = NUL)"
    using strcmp_not_separator [OF tk ne] by simp
  have d': "drop (offset + length t + 1) line = ?rest"
    using drop_append_Cons_nth [OF d] by simp
  have h: "holds ?b2 p0 (acc @ CHR '' '' # t)"
    unfolding holds_def
  proof (intro conjI allI impI)
    fix i
    assume i: "i < length (acc @ CHR '' '' # t)"
    consider "i < length acc" | "i = length acc" | "length acc < i"
      by linarith
    then show "peek ?b2 (p0 + i) = (acc @ CHR '' '' # t) ! i"
    proof cases
      case 1
      with Cons.prems(4,5) show ?thesis
        by (auto simp: holds_def peek_store_str_other nth_append)
    next
      case 2
      with Cons.prems(4) show ?thesis
        by (auto simp: nth_append)
    next
      case 3
      define j where "j = i - length acc - 1"
      with 3 have j: "i = length acc + 1 + j"
        by simp
      with i have jl: "j < length t"
        by simp
      have "p0 + i = offset + j"
        using j Cons.prems(4) by simp
      with peek_store_str [of j t "line_buf entry" offset] jl j Cons.prems(4) show ?thesis
        by (auto simp: nth_append)
    qed
  next
    have "p0 + length (acc @ CHR '' '' # t) = offset + length t"
      using Cons.prems(4) by simp
    with peek_store_str [of "length t" t "line_buf entry" offset] Cons.prems(4)
    show "peek ?b2 (p0 + length (acc @ CHR '' '' # t)) = NUL"
      by (auto simp: add.assoc)
  qed
  have o: "p0 + length (acc @ CHR '' '' # t) + 1 = offset + length t + 1"
    using Cons.prems(4) by simp
  from Cons.IH [of "offset + length t + 1" "field_num + 1" "acc @ CHR '' '' # t"
      "entry\<lparr>line_buf := ?b2\<rparr>"] d' ts o h
  obtain b where r: "opt_fields_loop (entry\<lparr>line_buf := ?b2\<rparr>) line (offset + length t + 1)
        (field_num + 1)
      = Inr (entry\<lparr>line_buf := b\<rparr>,
             offset + length t + 1 + length (concat (map (\<lambda>t. t @ '' '') ts)) + 2)"
    and hb: "holds b p0 ((acc @ CHR '' '' # t) @ concat (map (\<lambda>t. CHR '' '' # t) ts))"
    and fr: "\<forall>i<p0. peek b i = peek ?b2 i"
    by auto
  have "\<forall>i<p0. peek b i = peek (line_buf entry) i"
    using fr Cons.prems(4) by (auto simp: peek_store_str_other)
  with r hb Cons.prems(3) show ?case
    by (intro exI [of _ b]) (simp add: opt_fields_loop_continue [OF p nb])
qed

lemma join_sp_Cons: "join_sp (t # ts) = t @ concat (map (\<lambda>u. CHR '' '' # u) ts)"
  by (simp add: join_sp_def)

lemma opt_fields_loop_well_formed:
  assumes "drop offset line = concat (map (\<lambda>t. t @ '' '') opts) @ CHR ''-'' # CHR '' '' # rest"
    and "\<forall>t\<in>set opts. token t \<and> t \<noteq> ''-''"
  shows "\<exists>b. opt_fields_loop entry line offset 0
        = Inr (entry\<lparr>line_buf := b\<rparr>,
               offset + length (concat (map (\<lambda>t. t @ '' '') opts)) + 2)
      \<and> holds b offset (join_sp opts)
      \<and> (\<forall>i<offset. peek b i = peek (line_buf entry) i)"
proof (cases opts)
  case Nil
  let ?b1 = "store_str (line_buf entry) offset ''-''"
  from Nil assms(1) have d: "drop offset line = ''-'' @ CHR '' '' # rest"
    by simp
  have p: "parse_next_string_field entry line offset
      = Some (offset, entry\<lparr>line_buf := ?b1\<rparr>, offset + length ''-'' + 1)"
    by (rule parse_next_string_field_space [OF d]) (simp add: isspace_def)
  have br: "peek (line_buf (entry\<lparr>line_buf := ?b1\<rparr>)) offset = CHR ''-''
      \<and> peek (line_buf (entry\<lparr>line_buf := ?b1\<rparr>)) (offset + 1) = NUL"
    by simp
  show ?thesis
    using Nil
    by (intro exI [of _ "poke ?b1 offset NUL"])
      (simp add: opt_fields_loop_break [OF p br] holds_def join_sp_def)
next
  case (Cons t ts)
  let ?b1 = "store_str (line_buf entry) offset t"
  let ?rest = "concat (map (\<lambda>t. t @ '' '') ts) @ CHR ''-'' # CHR '' '' # rest"
  from Cons assms(2) have tk: "token t" and ne: "t \<noteq> ''-''"
    and ts: "\<forall>t\<in>set ts. token t \<and> t \<noteq> ''-''"
    by simp_all
  from Cons assms(1) have d: "drop offset line = t @ CHR '' '' # ?rest"
    by simp
  from tk have sp: "\<forall>c\<in>set t. \<not> isspace c"
    by (simp add: token_def)
  have p: "parse_next_string_field entry line offset
      = Some (offset, entry\<lparr>line_buf := ?b1\<rparr>, offset + length t + 1)"
    by (rule parse_next_string_field_space [OF d sp])
  have nb: "\<not> (peek (line_buf (entry\<lparr>line_buf := ?b1\<rparr>)) offset = CHR ''-''
      \<and> peek (line_buf (entry\<lparr>line_buf := ?b1\<rparr>)) (offset + 1) = NUL)"
    using strcmp_not_separator [OF tk ne] by simp
  have d': "drop (offset + length t + 1) line = ?rest"
    using drop_append_Cons_nth [OF d] by simp
  have h: "holds (line_buf (entry\<lparr>line_buf := ?b1\<rparr>)) offset t"
    by (simp add: holds_store_str)
  from opt_fields_loop_rest [OF d' ts _ _ h, of 1]
  obtain b where r: "opt_fields_loop (entry\<lparr>line_buf := ?b1\<rparr>) line (offset + length t + 1) 1
      = Inr (entry\<lparr>line_buf := b\<rparr>,
             offset + length t + 1 + length (concat (map (\<lambda>t. t @ '' '') ts)) + 2)"
    and hb: "holds b offset (t @ concat (map (\<lambda>t. CHR '' '' # t) ts))"
    and fr: "\<forall>i<offset. peek b i = peek ?b1 i"
    by auto
  have "\<forall>i<offset. peek b i = peek (line_buf entry) i"
    using fr by (simp add: peek_store_str_other)
  with r hb Cons show ?thesis
    by (intro exI [of _ b]) (simp add: opt_fields_loop_continue [OF p nb] join_sp_Cons)
qed


subsection \<open>A line of the grammar\<close>

lemma length_join_sp: "length (join_sp opts) \<le> length (concat (map (\<lambda>t. t @ '' '') opts))"
proof (cases opts)
  case Nil
  then show ?thesis by (simp add: join_sp_def)
next
  case (Cons t ts)
  have "length (concat (map (\<lambda>u. CHR '' '' # u) ts)) = length (concat (map (\<lambda>t. t @ '' '') ts))"
    by (induction ts) simp_all
  with Cons show ?thesis
    by (simp add: join_sp_def)
qed

lemma token_join_sp: "\<forall>t\<in>set opts. token t \<and> t \<noteq> ''-'' \<Longrightarrow> NUL \<notin> set (join_sp opts)"
  by (cases opts) (auto simp: join_sp_def token_def)

lemma token_no_NUL: "token t \<Longrightarrow> NUL \<notin> set t"
  by (auto simp: token_def)

lemma token_no_space: "token t \<Longrightarrow> \<forall>c\<in>set t. \<not> isspace c"
  by (auto simp: token_def)

lemma parse_well_formed_fields:
  assumes hdr: "sscanf_header line = Some (a, b, c, d, off)"
    and body: "drop off line = mountinfo_fields rt mdir mopts opts fs src sopts @ trailer"
    and tk: "token rt" "token mdir" "token mopts" "\<forall>t\<in>set opts. token t \<and> t \<noteq> ''-''"
      "token fs" "token src" "token sopts"
    and last: "sopts \<noteq> [] \<and> (trailer = [] \<or> isspace (hd trailer))
         \<or> trailer \<noteq> [] \<and> hd trailer = CHR '' ''"
    and nonul: "NUL \<notin> set line"
  shows "\<exists>e. sc_parse_mountinfo_entry line = Some e
      \<and> mount_id e = a \<and> parent_id e = b \<and> dev_major e = c \<and> dev_minor e = d
      \<and> map (field_str e)
          [root e, mount_dir e, mount_opts e, optional_fields e,
           fs_type e, mount_source e, super_opts e]
        = [Some rt, Some mdir, Some mopts, Some (join_sp opts), Some fs, Some src, Some sopts]"
proof -
  define n where "n = length (concat (map (\<lambda>t. t @ '' '') opts))"
  define o1 where "o1 = off + length rt + 1"
  define o2 where "o2 = o1 + length mdir + 1"
  define o3 where "o3 = o2 + length mopts + 1"
  define o4 where "o4 = o3 + n + 2"
  define o5 where "o5 = o4 + length fs + 1"
  define o6 where "o6 = o5 + length src + 1"
  define o7 where "o7 = (if char_at line (o6 + length sopts) = CHR '' '' then o6 + length sopts + 1
      else o6 + length sopts)"
  define R6 where "R6 = sopts @ trailer"
  define R5 where "R5 = src @ CHR '' '' # R6"
  define R4 where "R4 = fs @ CHR '' '' # R5"
  define R3 where "R3 = concat (map (\<lambda>t. t @ '' '') opts) @ CHR ''-'' # CHR '' '' # R4"
  define R2 where "R2 = mopts @ CHR '' '' # R3"
  define R1 where "R1 = mdir @ CHR '' '' # R2"
  have d0: "drop off line = rt @ CHR '' '' # R1"
    by (simp add: body mountinfo_fields_def R1_def R2_def R3_def R4_def R5_def R6_def)
  have d1: "drop o1 line = mdir @ CHR '' '' # R2"
    using drop_append_Cons_nth [OF d0] by (simp add: o1_def R1_def)
  have d2: "drop o2 line = mopts @ CHR '' '' # R3"
    using drop_append_Cons_nth [OF d1] by (simp add: o2_def R2_def)
  have d3: "drop o3 line = concat (map (\<lambda>t. t @ '' '') opts) @ CHR ''-'' # CHR '' '' # R4"
    using drop_append_Cons_nth [OF d2] by (simp add: o3_def R3_def)
  have "drop o3 line = (concat (map (\<lambda>t. t @ '' '') opts) @ ''-'') @ CHR '' '' # R4"
    using d3 by simp
  from drop_append_Cons_nth [OF this] have d4: "drop o4 line = fs @ CHR '' '' # R5"
    by (simp add: o4_def n_def R4_def)
  have d5: "drop o5 line = src @ CHR '' '' # R6"
    using drop_append_Cons_nth [OF d4] by (simp add: o5_def R5_def)
  have d6: "drop o6 line = sopts @ trailer"
    using drop_append_Cons_nth [OF d5] by (simp add: o6_def R6_def)
  have s1: "parse_next_string_field e line off
      = Some (off, e\<lparr>line_buf := store_str (line_buf e) off rt\<rparr>, o1)" for e
    unfolding o1_def by (rule parse_next_string_field_space [OF d0 token_no_space [OF tk(1)]])
  have s2: "parse_next_string_field e line o1
      = Some (o1, e\<lparr>line_buf := store_str (line_buf e) o1 mdir\<rparr>, o2)" for e
    unfolding o2_def by (rule parse_next_string_field_space [OF d1 token_no_space [OF tk(2)]])
  have s3: "parse_next_string_field e line o2
      = Some (o2, e\<lparr>line_buf := store_str (line_buf e) o2 mopts\<rparr>, o3)" for e
    unfolding o3_def by (rule parse_next_string_field_space [OF d2 token_no_space [OF tk(3)]])
  have s5: "parse_next_string_field e line o4
      = Some (o4, e\<lparr>line_buf := store_str (line_buf e) o4 fs\<rparr>, o5)" for e
    unfolding o5_def by (rule parse_next_string_field_space [OF d4 token_no_space [OF tk(5)]])
  have s6: "parse_next_string_field e line o5
      = Some (o5, e\<lparr>line_buf := store_str (line_buf e) o5 src\<rparr>, o6)" for e
    unfolding o6_def by (rule parse_next_string_field_space [OF d5 token_no_space [OF tk(6)]])
  have s7: "parse_next_string_field e line o6
      = Some (o6, e\<lparr>line_buf := store_str (line_buf e) o6 sopts\<rparr>, o7)" for e
    unfolding o7_def by (rule parse_next_string_field_last [OF d6 token_no_space [OF tk(7)] last])
  define B1 where "B1 = store_str [] off rt"
  define B2 where "B2 = store_str B1 o1 mdir"
  define B3 where "B3 = store_str B2 o2 mopts"
  define e3 where "e3 = calloc_entry\<lparr>mount_id := a, parent_id := b, dev_major := c,
      dev_minor := d, root := Some off, mount_dir := Some o1, mount_opts := Some o2,
      line_buf := B3\<rparr>"
  define e3o where "e3o = e3\<lparr>optional_fields := Some o3\<rparr>"
  have b3: "line_buf e3o = B3"
    by (simp add: e3o_def e3_def)
  from opt_fields_loop_well_formed [OF d3 tk(4), of e3o]
  obtain B4 where loop: "opt_fields_loop e3o line o3 0 = Inr (e3o\<lparr>line_buf := B4\<rparr>, o4)"
    and h4: "holds B4 o3 (join_sp opts)"
    and f4: "\<forall>i<o3. peek B4 i = peek B3 i"
    unfolding b3 o4_def n_def by blast
  define B5 where "B5 = store_str B4 o4 fs"
  define B6 where "B6 = store_str B5 o5 src"
  define B7 where "B7 = store_str B6 o6 sopts"
  define e where "e = e3o\<lparr>fs_type := Some o4, mount_source := Some o5, super_opts := Some o6,
      line_buf := B7\<rparr>"
  have tw: "takeWhile (\<lambda>c. c \<noteq> NUL) line = line"
    using nonul by (auto simp: takeWhile_eq_all_conv)
  have L: "parse_leading_fields calloc_entry line = Inr (e3, o3)"
    by (simp add: parse_leading_fields_def hdr s1 s2 s3 e3_def B3_def B2_def B1_def
        calloc_entry_def)
  have T: "parse_trailing_fields (e3o\<lparr>line_buf := B4\<rparr>) line o4 = Inr e"
    by (simp add: parse_trailing_fields_def s5 s6 s7 e_def B7_def B6_def B5_def)
  have R: "sc_parse_mountinfo_entry_raw line = Inr e"
    unfolding sc_parse_mountinfo_entry_raw_def tw Let_def L
    by (simp add: e3o_def [symmetric] loop T)
  have P: "sc_parse_mountinfo_entry line = Some e"
    by (simp add: sc_parse_mountinfo_entry_def R)
  have ord: "o1 \<le> o2" "o2 \<le> o3" "o3 \<le> o4" "o4 \<le> o5" "o5 \<le> o6"
    by (simp_all add: o2_def o3_def o4_def o5_def o6_def)
  have f7: "peek B7 i = peek B4 i" if "i < o4" for i
    using that ord by (simp add: B7_def B6_def B5_def peek_store_str_other)
  have g7: "peek B7 i = peek B6 i" if "i < o6" for i
    using that by (simp add: B7_def peek_store_str_other)
  have g6: "peek B6 i = peek B5 i" if "i < o5" for i
    using that by (simp add: B6_def peek_store_str_other)
  have f3: "peek B3 i = peek B2 i" if "i < o2" for i
    using that by (simp add: B3_def peek_store_str_other)
  have f2: "peek B2 i = peek B1 i" if "i < o1" for i
    using that by (simp add: B2_def peek_store_str_other)
  have h_rt: "holds B7 off rt"
  proof (rule holds_frame)
    show "holds B1 off rt"
      by (simp add: B1_def holds_store_str)
    fix i
    assume "i \<le> off + length rt"
    then have "i < o1"
      by (simp add: o1_def)
    with ord show "peek B7 i = peek B1 i"
      by (simp add: f7 f4 f3 f2)
  qed
  have h_mdir: "holds B7 o1 mdir"
  proof (rule holds_frame)
    show "holds B2 o1 mdir"
      by (simp add: B2_def holds_store_str)
    fix i
    assume "i \<le> o1 + length mdir"
    then have "i < o2"
      by (simp add: o2_def)
    with ord show "peek B7 i = peek B2 i"
      by (simp add: f7 f4 f3)
  qed
  have h_mopts: "holds B7 o2 mopts"
  proof (rule holds_frame)
    show "holds B3 o2 mopts"
      by (simp add: B3_def holds_store_str)
    fix i
    assume "i \<le> o2 + length mopts"
    then have "i < o3"
      by (simp add: o3_def)
    with ord show "peek B7 i = peek B3 i"
      by (simp add: f7 f4)
  qed
  have h_opt: "holds B7 o3 (join_sp opts)"
  proof (rule holds_frame [OF h4])
    fix i
    assume "i \<le> o3 + length (join_sp opts)"
    with length_join_sp [of opts] have "i < o4"
      by (simp add: o4_def n_def)
    then show "peek B7 i = peek B4 i"
      by (rule f7)
  qed
  have h_fs: "holds B7 o4 fs"
  proof (rule holds_frame)
    show "holds B5 o4 fs"
      by (simp add: B5_def holds_store_str)
    fix i
    assume "i \<le> o4 + length fs"
    then have "i < o5"
      by (simp add: o5_def)
    with ord show "peek B7 i = peek B5 i"
      by (simp add: g7 g6)
  qed
  have h_src: "holds B7 o5 src"
  proof (rule holds_frame)
    show "holds B6 o5 src"
      by (simp add: B6_def holds_store_str)
    fix i
    assume "i \<le> o5 + length src"
    then have "i < o6"
      by (simp add: o6_def)
    then show "peek B7 i = peek B6 i"
      by (rule g7)
  qed
  have h_sopts: "holds B7 o6 sopts"
    by (simp add: B7_def holds_store_str)
  have sel: "root e = Some off" "mount_dir e = Some o1" "mount_opts e = Some o2"
    "optional_fields e = Some o3" "fs_type e = Some o4" "mount_source e = Some o5"
    "super_opts e = Some o6" "line_buf e = B7"
    "mount_id e = a" "parent_id e = b" "dev_major e = c" "dev_minor e = d"
    by (simp_all add: e_def e3o_def e3_def)
  have str: "c_str B7 off = rt" "c_str B7 o1 = mdir" "c_str B7 o2 = mopts"
    "c_str B7 o3 = join_sp opts" "c_str B7 o4 = fs" "c_str B7 o5 = src" "c_str B7 o6 = sopts"
    using holds_c_str [OF h_rt token_no_NUL [OF tk(1)]]
      holds_c_str [OF h_mdir token_no_NUL [OF tk(2)]]
      holds_c_str [OF h_mopts token_no_NUL [OF tk(3)]]
      holds_c_str [OF h_opt token_join_sp [OF tk(4)]]
      holds_c_str [OF h_fs token_no_NUL [OF tk(5)]]
      holds_c_str [OF h_src token_no_NUL [OF tk(6)]]
      holds_c_str [OF h_sopts token_no_NUL [OF tk(7)]]
    by - assumption+
  show ?thesis
    by (intro exI [of _ e]) (simp add: P sel field_str_def str)
qed

subsection \<open>Numbers in decimal\<close>

lemma digit_char_props:
  assumes "0 \<le> d" and "d < 10"
  shows "isdigit (digit_char d)" and "digit_val (digit_char d) = d"
proof -
  from assms have "(48 + d) mod 256 = 48 + d"
    by simp
  then have "of_char (digit_char d) = 48 + d"
    by (simp add: digit_char_def)
  with assms show "isdigit (digit_char d)" and "digit_val (digit_char d) = d"
    by (simp_all add: isdigit_def digit_val_def)
qed

lemma show_dec_props:
  "0 \<le> n \<Longrightarrow> (\<forall>c\<in>set (show_dec n). isdigit c) \<and> show_dec n \<noteq> []
     \<and> digits_value (show_dec n) = n"
proof (induction n rule: show_dec.induct)
  case (1 n)
  show ?case
  proof (cases "n < 10")
    case True
    with "1.prems" digit_char_props [of n] show ?thesis
      by (subst (1 2 3) show_dec.simps) (simp add: digits_value_def)
  next
    case False
    with "1.prems" have "0 \<le> n div 10"
      by simp
    from "1.IH" [OF False this] digit_char_props [of "n mod 10"] False show ?thesis
      by (subst (1 2 3) show_dec.simps) (simp add: digits_value_def)
  qed
qed

lemma isdigit_not_others:
  "isdigit c \<Longrightarrow> \<not> isspace c \<and> c \<noteq> CHR ''-'' \<and> c \<noteq> CHR ''+'' \<and> c \<noteq> NUL"
  by (auto simp: isdigit_def isspace_def)

lemma scan_number_digits:
  assumes "ds \<noteq> []" and "\<forall>c\<in>set ds. isdigit c" and "r = [] \<or> \<not> isdigit (hd r)"
  shows "scan_number (ds @ r) = Some (False, digits_value ds, r)"
    and "scan_number (CHR ''-'' # ds @ r) = Some (True, digits_value ds, r)"
proof -
  from assms(1,2) obtain c cs where ds: "ds = c # cs" and c: "isdigit c"
    by (cases ds) auto
  have t: "takeWhile isdigit (ds @ r) = ds" and d: "dropWhile isdigit (ds @ r) = r"
    using assms(2,3) by (cases r; simp)+
  from isdigit_not_others [OF c] have s: "dropWhile isspace (ds @ r) = ds @ r"
    by (simp add: ds)
  have s': "dropWhile isspace (CHR ''-'' # ds @ r) = CHR ''-'' # ds @ r"
    by (simp add: isspace_def)
  show "scan_number (ds @ r) = Some (False, digits_value ds, r)"
    unfolding scan_number_def s Let_def
    using isdigit_not_others [OF c] t d assms(1) by (simp add: ds)
  show "scan_number (CHR ''-'' # ds @ r) = Some (True, digits_value ds, r)"
    unfolding scan_number_def s' Let_def
    using t d assms(1) by simp
qed

lemma scan_number_show_int:
  assumes "r = [] \<or> \<not> isdigit (hd r)"
  shows "scan_number (show_int n @ r) = Some (n < 0, \<bar>n\<bar>, r)"
proof (cases "n < 0")
  case True
  then have "0 \<le> - n"
    by simp
  from show_dec_props [OF this] scan_number_digits(2) [OF _ _ assms, of "show_dec (- n)"] True
  show ?thesis
    by (simp add: show_int_def)
next
  case False
  then have "0 \<le> n"
    by simp
  from show_dec_props [OF this] scan_number_digits(1) [OF _ _ assms, of "show_dec n"] False
  show ?thesis
    by (simp add: show_int_def)
qed

lemma scan_number_space: "isspace c \<Longrightarrow> scan_number (c # s) = scan_number s"
  by (simp add: scan_number_def)

lemma conv_d_in_range:
  assumes "- (2 ^ 31) \<le> n" and "n < 2 ^ 31"
  shows "sint (conv_d (n < 0) \<bar>n\<bar>) = n"
proof -
  from assms have "(if n < 0 then max (- (2 ^ 63)) (- \<bar>n\<bar>) else min (2 ^ 63 - 1) \<bar>n\<bar>) = n"
    by simp
  then have "conv_d (n < 0) \<bar>n\<bar> = word_of_int n"
    by (simp add: conv_d_def)
  moreover have "sint (word_of_int n :: 32 word) = n"
    using assms by (simp add: sint_sbintrunc' signed_take_bit_int_eq_self)
  ultimately show ?thesis
    by simp
qed

lemma conv_u_in_range:
  assumes "0 \<le> n" and "n < 2 ^ 32"
  shows "uint (conv_u (n < 0) \<bar>n\<bar>) = n"
proof -
  from assms have "conv_u (n < 0) \<bar>n\<bar> = word_of_int n"
    by (simp add: conv_u_def)
  moreover have "uint (word_of_int n :: 32 word) = n"
    using assms by (simp add: uint_word_of_int_eq take_bit_int_eq_self)
  ultimately show ?thesis
    by simp
qed

lemma sscanf_header_numbers:
  assumes "rest = [] \<or> \<not> isspace (hd rest)" and "0 \<le> mj" and "0 \<le> mn"
  shows "sscanf_header
      (show_int mid @ '' '' @ show_int pid @ '' '' @ show_dec mj @ '':'' @ show_dec mn @ '' ''
        @ rest)
    = Some (conv_d (mid < 0) \<bar>mid\<bar>, conv_d (pid < 0) \<bar>pid\<bar>, conv_u (mj < 0) \<bar>mj\<bar>,
        conv_u (mn < 0) \<bar>mn\<bar>,
        length (show_int mid @ '' '' @ show_int pid @ '' '' @ show_dec mj @ '':''
          @ show_dec mn @ '' ''))"
proof -
  let ?r4 = "CHR '' '' # rest"
  let ?r3 = "show_dec mn @ ?r4"
  let ?r2 = "show_dec mj @ CHR '':'' # ?r3"
  let ?r1 = "show_int pid @ CHR '' '' # ?r2"
  have nd: "\<not> isdigit (CHR '' '')" "\<not> isdigit (CHR '':'')"
    by (simp_all add: isdigit_def)
  have mj: "show_dec mj = show_int mj" and mn: "show_dec mn = show_int mn"
    using assms(2,3) by (simp_all add: show_int_def)
  have 1: "scan_number (show_int mid @ CHR '' '' # ?r1) = Some (mid < 0, \<bar>mid\<bar>, CHR '' '' # ?r1)"
    by (rule scan_number_show_int) (simp add: nd)
  have 2: "scan_number (CHR '' '' # ?r1) = Some (pid < 0, \<bar>pid\<bar>, CHR '' '' # ?r2)"
    unfolding scan_number_space [OF isspace_space]
    by (rule scan_number_show_int) (simp add: nd)
  have 3: "scan_number (CHR '' '' # ?r2) = Some (mj < 0, \<bar>mj\<bar>, CHR '':'' # ?r3)"
    unfolding scan_number_space [OF isspace_space] mj
    by (rule scan_number_show_int) (simp add: nd)
  have 4: "scan_number ?r3 = Some (mn < 0, \<bar>mn\<bar>, ?r4)"
    unfolding mn by (rule scan_number_show_int) (simp add: nd)
  have dw: "dropWhile isspace ?r4 = rest"
    using assms(1) by (cases rest) simp_all
  show ?thesis
    by (simp add: sscanf_header_def 1 2 3 4 dw del: dropWhile.simps)
qed

subsection \<open>Lines of the grammar\<close>

lemma show_dec_no_NUL:
  assumes "0 \<le> n"
  shows "NUL \<notin> set (show_dec n)"
proof
  assume "NUL \<in> set (show_dec n)"
  with show_dec_props [OF assms] have "isdigit NUL"
    by blast
  then show False
    by (simp add: isdigit_def)
qed

lemma show_int_no_NUL: "NUL \<notin> set (show_int n)"
proof (cases "n < 0")
  case True
  then have "0 \<le> - n"
    by simp
  from show_dec_no_NUL [OF this] True show ?thesis
    by (simp add: show_int_def)
next
  case False
  then have "0 \<le> n"
    by simp
  from show_dec_no_NUL [OF this] False show ?thesis
    by (simp add: show_int_def)
qed

lemma mountinfo_fields_no_NUL:
  assumes "token rt" "token mdir" "token mopts" "\<forall>t\<in>set opts. token t \<and> t \<noteq> ''-''"
    "token fs" "token src" "token sopts"
  shows "NUL \<notin> set (mountinfo_fields rt mdir mopts opts fs src sopts)"
proof -
  from assms(4) have "NUL \<notin> set (concat (map (\<lambda>t. t @ '' '') opts))"
    by (induction opts) (simp_all add: token_no_NUL)
  with assms(1-3,5-7) show ?thesis
    by (simp add: mountinfo_fields_def token_no_NUL)
qed

lemma parse_mountinfo_line:
  assumes rng: "- (2 ^ 31) \<le> mid" "mid < 2 ^ 31" "- (2 ^ 31) \<le> pid" "pid < 2 ^ 31"
      "0 \<le> mj" "mj < 2 ^ 32" "0 \<le> mn" "mn < 2 ^ 32"
    and tk: "token rt" "token mdir" "token mopts" "\<forall>t\<in>set opts. token t \<and> t \<noteq> ''-''"
      "token fs" "token src" "token sopts"
    and rt: "rt \<noteq> []"
    and last: "sopts \<noteq> [] \<and> (trailer = [] \<or> isspace (hd trailer))
         \<or> trailer \<noteq> [] \<and> hd trailer = CHR '' ''"
    and tr: "NUL \<notin> set trailer"
  shows "\<exists>e. sc_parse_mountinfo_entry
          (mountinfo_line mid pid mj mn rt mdir mopts opts fs src sopts @ trailer) = Some e
      \<and> entry_values e
        = (mid, pid, mj, mn,
           [Some rt, Some mdir, Some mopts, Some (join_sp opts), Some fs, Some src, Some sopts])"
proof -
  define pre where
    "pre = show_int mid @ '' '' @ show_int pid @ '' '' @ show_dec mj @ '':'' @ show_dec mn @ '' ''"
  define body where "body = mountinfo_fields rt mdir mopts opts fs src sopts @ trailer"
  let ?line = "mountinfo_line mid pid mj mn rt mdir mopts opts fs src sopts @ trailer"
  have l: "?line = pre @ body"
    by (simp add: mountinfo_line_def pre_def body_def)
  from rt tk(1) have "\<not> isspace (hd body)"
    by (cases rt) (simp_all add: mountinfo_fields_def token_def body_def)
  then have "body = [] \<or> \<not> isspace (hd body)"
    by simp
  from sscanf_header_numbers [OF this rng(5,7), of mid pid]
  have hdr: "sscanf_header ?line
      = Some (conv_d (mid < 0) \<bar>mid\<bar>, conv_d (pid < 0) \<bar>pid\<bar>, conv_u (mj < 0) \<bar>mj\<bar>,
          conv_u (mn < 0) \<bar>mn\<bar>, length pre)"
    unfolding l pre_def by simp
  have body: "drop (length pre) ?line = mountinfo_fields rt mdir mopts opts fs src sopts @ trailer"
    unfolding l by (simp add: body_def)
  have "NUL \<notin> set pre"
    unfolding pre_def
    using show_int_no_NUL [of mid] show_int_no_NUL [of pid] show_dec_no_NUL [OF rng(5)]
      show_dec_no_NUL [OF rng(7)]
    by simp
  with mountinfo_fields_no_NUL [OF tk] tr have nonul: "NUL \<notin> set ?line"
    unfolding l body_def by simp
  from parse_well_formed_fields [OF hdr body tk last nonul]
  obtain e where E: "sc_parse_mountinfo_entry ?line = Some e
      \<and> mount_id e = conv_d (mid < 0) \<bar>mid\<bar> \<and> parent_id e = conv_d (pid < 0) \<bar>pid\<bar>
      \<and> dev_major e = conv_u (mj < 0) \<bar>mj\<bar> \<and> dev_minor e = conv_u (mn < 0) \<bar>mn\<bar>
      \<and> map (field_str e)
          [root e, mount_dir e, mount_opts e, optional_fields e,
           fs_type e, mount_source e, super_opts e]
        = [Some rt, Some mdir, Some mopts, Some (join_sp opts), Some fs, Some src, Some sopts]" ..
  have n: "sint (mount_id e) = mid" "sint (parent_id e) = pid"
      "uint (dev_major e) = mj" "uint (dev_minor e) = mn"
    using E conv_d_in_range [OF rng(1,2)] conv_d_in_range [OF rng(3,4)]
      conv_u_in_range [OF rng(5,6)] conv_u_in_range [OF rng(7,8)]
    by simp_all
  from E have m: "map (field_str e)
          [root e, mount_dir e, mount_opts e, optional_fields e,
           fs_type e, mount_source e, super_opts e]
        = [Some rt, Some mdir, Some mopts, Some (join_sp opts), Some fs, Some src, Some sopts]"
    by (elim conjE)
  have "entry_values e
        = (mid, pid, mj, mn,
           [Some rt, Some mdir, Some mopts, Some (join_sp opts), Some fs, Some src, Some sopts])"
    unfolding entry_values_def n m ..
  with E show ?thesis
    by (intro exI [of _ e]) (simp only: simp_thms)
qed

subsection \<open>The pointers of a parsed entry\<close>

lemma parse_next_string_field_pointers:
  assumes "parse_next_string_field entry line offset = Some (f, entry', offset')"
  shows "root entry' = root entry \<and> mount_dir entry' = mount_dir entry
    \<and> mount_opts entry' = mount_opts entry \<and> optional_fields entry' = optional_fields entry
    \<and> fs_type entry' = fs_type entry \<and> mount_source entry' = mount_source entry"
  using assms by (cases rule: parse_next_string_field_cases) simp_all

lemma opt_fields_loop_pointers:
  "opt_fields_loop entry line offset field_num = Inr (entry', offset')
    \<Longrightarrow> root entry' = root entry \<and> mount_dir entry' = mount_dir entry
      \<and> mount_opts entry' = mount_opts entry \<and> optional_fields entry' = optional_fields entry"
proof (induction "length line - offset" arbitrary: entry offset field_num rule: less_induct)
  case less
  show ?case
  proof (cases "parse_next_string_field entry line offset")
    case None
    with less.prems show ?thesis
      by (simp add: opt_fields_loop_fail)
  next
    case (Some x)
    then obtain f e1 o1 where p: "parse_next_string_field entry line offset = Some (f, e1, o1)"
      by (cases x) auto
    note b = parse_next_string_field_bounds [OF p]
    note q = parse_next_string_field_pointers [OF p]
    show ?thesis
    proof (cases "peek (line_buf e1) f = CHR ''-'' \<and> peek (line_buf e1) (f + 1) = NUL")
      case True
      with less.prems q show ?thesis
        by (auto simp: opt_fields_loop_break [OF p True])
    next
      case False
      have m: "length line - o1 < length line - offset"
        using b(2,3) by simp
      define e2 where "e2 = (if field_num > 0
          then e1\<lparr>line_buf := poke (line_buf e1) (f - 1) (CHR '' '')\<rparr> else e1)"
      have q2: "root e2 = root e1 \<and> mount_dir e2 = mount_dir e1
          \<and> mount_opts e2 = mount_opts e1 \<and> optional_fields e2 = optional_fields e1"
        by (simp add: e2_def)
      from less.prems
      have "opt_fields_loop e2 line o1 (field_num + 1) = Inr (entry', offset')"
        unfolding opt_fields_loop_continue [OF p False] e2_def .
      from less.hyps [OF m this] q q2 show ?thesis
        by simp
    qed
  qed
qed

lemma parse_trailing_fields_steps:
  assumes "parse_trailing_fields entry l offset = Inr entry'"
  obtains f1 e1 o1 f2 e2 o2 f3 e3 o3
  where "parse_next_string_field entry l offset = Some (f1, e1, o1)"
    and "parse_next_string_field (e1\<lparr>fs_type := Some f1\<rparr>) l o1 = Some (f2, e2, o2)"
    and "parse_next_string_field (e2\<lparr>mount_source := Some f2\<rparr>) l o2 = Some (f3, e3, o3)"
    and "entry' = e3\<lparr>super_opts := Some f3\<rparr>"
  using assms
  by (auto simp: parse_trailing_fields_def Let_def split: option.splits)

lemma parsed_entry_non_null:
  assumes "sc_parse_mountinfo_entry line = Some e"
  shows "root e \<noteq> None \<and> mount_dir e \<noteq> None \<and> mount_opts e \<noteq> None
    \<and> optional_fields e \<noteq> None \<and> fs_type e \<noteq> None \<and> mount_source e \<noteq> None
    \<and> super_opts e \<noteq> None"
proof -
  define l where "l = takeWhile (\<lambda>c. c \<noteq> NUL) line"
  from assms obtain e3 o3 e4 o4
    where L: "parse_leading_fields calloc_entry l = Inr (e3, o3)"
      and O: "opt_fields_loop (e3\<lparr>optional_fields := Some o3\<rparr>) l o3 0 = Inr (e4, o4)"
      and T: "parse_trailing_fields e4 l o4 = Inr e"
    by (auto simp: sc_parse_mountinfo_entry_def sc_parse_mountinfo_entry_raw_def l_def Let_def
        split: sum.splits)
  from L obtain f1 f2 f3 where p3: "root e3 = Some f1 \<and> mount_dir e3 = Some f2 \<and> mount_opts e3 = Some f3"
  proof (cases rule: parse_leading_fields_steps)
    case (1 mid pid mj mn d f1 e1 o1 f2 e2 o2 f3 e3')
    from parse_next_string_field_pointers [OF 1(3)] parse_next_string_field_pointers [OF 1(4)] 1(5)
    have "root e3 = Some f1 \<and> mount_dir e3 = Some f2 \<and> mount_opts e3 = Some f3"
      by simp
    with that show ?thesis
      by blast
  qed
  from opt_fields_loop_pointers [OF O] p3
  have p4: "root e4 = Some f1 \<and> mount_dir e4 = Some f2 \<and> mount_opts e4 = Some f3
      \<and> optional_fields e4 = Some o3"
    by simp
  from T show ?thesis
  proof (cases rule: parse_trailing_fields_steps)
    case (1 g1 e5 o5 g2 e6 o6 g3 e7 o7)
    from parse_next_string_field_pointers [OF 1(1)] parse_next_string_field_pointers [OF 1(2)]
      parse_next_string_field_pointers [OF 1(3)] 1(4) p4
    show ?thesis
      by simp
  qed
qed

subsection \<open>Joining the fields again\<close>

lemma concat_opts:
  "concat (map (\<lambda>t. t @ '' '') opts) = (if opts = [] then [] else join_sp opts @ '' '')"
proof (induction opts)
  case Nil
  show ?case by simp
next
  case (Cons t ts)
  then show ?case
    by (cases ts) (simp_all add: join_sp_def)
qed

lemma join_sp_empty:
  assumes "\<forall>t\<in>set opts. t \<noteq> []"
  shows "join_sp opts = [] \<longleftrightarrow> opts = []"
  using assms by (cases opts) (simp_all add: join_sp_def)

lemma reassemble_values:
  assumes "entry_values e
      = (mid, pid, mj, mn,
         [Some rt, Some mdir, Some mopts, Some os, Some fs, Some src, Some sopts])"
  shows "reassemble e
      = show_int mid @ '' '' @ show_int pid @ '' '' @ show_dec mj @ '':'' @ show_dec mn @ '' ''
        @ join_with_spaces
            ([rt, mdir, mopts] @ (if os = [] then [] else [os]) @ [''-'', fs, src, sopts])"
  using assms by (simp add: entry_values_def reassemble_def field_text_def)

lemma join_fields:
  assumes "\<forall>t\<in>set opts. t \<noteq> []"
  shows "join_with_spaces
      ([rt, mdir, mopts] @ (if join_sp opts = [] then [] else [join_sp opts])
        @ [''-'', fs, src, sopts])
    = mountinfo_fields rt mdir mopts opts fs src sopts"
proof (cases "opts = []")
  case True
  then show ?thesis
    by (simp add: mountinfo_fields_def join_sp_def)
next
  case False
  with join_sp_empty [OF assms] have "join_sp opts \<noteq> []"
    by simp
  with False show ?thesis
    by (simp add: mountinfo_fields_def concat_opts)
qed

subsection \<open>The claims about the parser\<close>

text \<open>
  C2. The line of the kernel documentation parses to mount_id 36, parent_id 35, device
  98:0, root \<open>/mnt1\<close>, mount_dir \<open>/mnt2\<close>, mount_opts \<open>rw,noatime\<close>, optional_fields
  \<open>master:1\<close>, fs_type \<open>ext3\<close>, mount_source \<open>/dev/root\<close> and super_opts
  \<open>rw,errors=continue\<close>; with the optional fields \<open>master:1 shared:2\<close> the parsed
  optional_fields is \<open>master:1 shared:2\<close>, the two tokens joined by one space.
\<close>

theorem scenario_line_parses:
  "(\<exists>e. sc_parse_mountinfo_entry
          ''36 35 98:0 /mnt1 /mnt2 rw,noatime master:1 - ext3 /dev/root rw,errors=continue''
        = Some e
      \<and> sint (mount_id e) = 36 \<and> sint (parent_id e) = 35
      \<and> uint (dev_major e) = 98 \<and> uint (dev_minor e) = 0
      \<and> field_str e (root e) = Some ''/mnt1''
      \<and> field_str e (mount_dir e) = Some ''/mnt2''
      \<and> field_str e (mount_opts e) = Some ''rw,noatime''
      \<and> field_str e (optional_fields e) = Some ''master:1''
      \<and> field_str e (fs_type e) = Some ''ext3''
      \<and> field_str e (mount_source e) = Some ''/dev/root''
      \<and> field_str e (super_opts e) = Some ''rw,errors=continue'')
   \<and> (\<exists>e. sc_parse_mountinfo_entry
          ''36 35 98:0 /mnt1 /mnt2 rw,noatime master:1 shared:2 - ext3 /dev/root rw,errors=continue''
        = Some e
      \<and> field_str e (optional_fields e) = Some ''master:1 shared:2'')"
proof -
  have one: "map_option entry_values (sc_parse_mountinfo_entry
      ''36 35 98:0 /mnt1 /mnt2 rw,noatime master:1 - ext3 /dev/root rw,errors=continue'')
    = Some (36, 35, 98, 0,
        [Some ''/mnt1'', Some ''/mnt2'', Some ''rw,noatime'', Some ''master:1'',
         Some ''ext3'', Some ''/dev/root'', Some ''rw,errors=continue''])"
    by code_simp
  have two: "map_option entry_values (sc_parse_mountinfo_entry
      ''36 35 98:0 /mnt1 /mnt2 rw,noatime master:1 shared:2 - ext3 /dev/root rw,errors=continue'')
    = Some (36, 35, 98, 0,
        [Some ''/mnt1'', Some ''/mnt2'', Some ''rw,noatime'', Some ''master:1 shared:2'',
         Some ''ext3'', Some ''/dev/root'', Some ''rw,errors=continue''])"
    by code_simp
  from one have "\<exists>e. sc_parse_mountinfo_entry
          ''36 35 98:0 /mnt1 /mnt2 rw,noatime master:1 - ext3 /dev/root rw,errors=continue''
        = Some e
      \<and> sint (mount_id e) = 36 \<and> sint (parent_id e) = 35
      \<and> uint (dev_major e) = 98 \<and> uint (dev_minor e) = 0
      \<and> field_str e (root e) = Some ''/mnt1''
      \<and> field_str e (mount_dir e) = Some ''/mnt2''
      \<and> field_str e (mount_opts e) = Some ''rw,noatime''
      \<and> field_str e (optional_fields e) = Some ''master:1''
      \<and> field_str e (fs_type e) = Some ''ext3''
      \<and> field_str e (mount_source e) = Some ''/dev/root''
      \<and> field_str e (super_opts e) = Some ''rw,errors=continue''"
    unfolding entry_values_def by (simp add: map_option_case split: option.splits)
  moreover from two have "\<exists>e. sc_parse_mountinfo_entry
          ''36 35 98:0 /mnt1 /mnt2 rw,noatime master:1 shared:2 - ext3 /dev/root rw,errors=continue''
        = Some e
      \<and> field_str e (optional_fields e) = Some ''master:1 shared:2''"
    unfolding entry_values_def by (simp add: map_option_case split: option.splits)
  ultimately show ?thesis
    by (rule conjI)
qed

text \<open>
  C10. The parser never modifies the input line. The line is only read; every byte the
  parser writes, whether it succeeds or fails, is written to the buffer of the entry it
  allocated, at an offset below the size of that buffer, the length of the line plus one.
  The line has at most \<open>INT_MAX\<close> bytes, so that the \<open>int\<close> offsets of the source do not
  overflow.
\<close>

theorem writes_stay_in_line_buf:
  assumes "int (strlen mem) \<le> INT_MAX"
  shows "written (sc_parse_mountinfo_entry_raw mem) \<subseteq> {..< strlen mem + 1}"
proof -
  define line where "line = takeWhile (\<lambda>c. c \<noteq> NUL) mem"
  define entry where "entry = calloc_entry"
  have d0: "length (line_buf entry) \<le> length line + 1"
    by (simp add: entry_def calloc_entry_def)
  have "written (sc_parse_mountinfo_entry_raw mem) \<subseteq> {..<length line + 1}"
  proof (cases "parse_leading_fields entry line")
    case (Inl b)
    with parse_leading_fields_length [OF d0] show ?thesis
      by (simp add: sc_parse_mountinfo_entry_raw_def written_def line_def entry_def)
  next
    case (Inr r)
    then obtain e1 o1 where r: "parse_leading_fields entry line = Inr (e1, o1)"
      by (cases r) auto
    with parse_leading_fields_length [OF d0]
    have d1: "length (line_buf (e1\<lparr>optional_fields := Some o1\<rparr>)) \<le> length line + 1"
      by simp
    show ?thesis
    proof (cases "opt_fields_loop (e1\<lparr>optional_fields := Some o1\<rparr>) line o1 0")
      case (Inl b)
      with opt_fields_loop_length [OF d1, of o1 0] r show ?thesis
        by (simp add: sc_parse_mountinfo_entry_raw_def written_def line_def entry_def)
    next
      case (Inr r2)
      then obtain e2 o2 where r2: "opt_fields_loop (e1\<lparr>optional_fields := Some o1\<rparr>) line o1 0 = Inr (e2, o2)"
        by (cases r2) auto
      with opt_fields_loop_length [OF d1, of o1 0] have "length (line_buf e2) \<le> length line + 1"
        by simp
      from parse_trailing_fields_length [OF this, of o2] r r2 show ?thesis
        by (simp add: sc_parse_mountinfo_entry_raw_def line_def entry_def)
    qed
  qed
  then show ?thesis
    by (simp add: line_def strlen_def)
qed

theorem writes_stay_in_line_buf_witness:
  "strlen kernel_doc_line = 78
   \<and> written (sc_parse_mountinfo_entry_raw kernel_doc_line) \<subseteq> {..< 79}
   \<and> strlen no_separator_line = 76
   \<and> written (sc_parse_mountinfo_entry_raw no_separator_line) \<subseteq> {..< 77}"
proof -
  have a: "strlen kernel_doc_line = 78"
    by (simp add: strlen_def kernel_doc_line_def)
  have b: "strlen no_separator_line = 76"
    by (simp add: strlen_def no_separator_line_def)
  from writes_stay_in_line_buf [of kernel_doc_line] writes_stay_in_line_buf [of no_separator_line]
  show ?thesis
    by (simp add: a b INT_MAX_def)
qed

text \<open>
  C3. A line that, after its three leading string fields, has no token exactly equal to
  \<open>-\<close> does not parse (a line whose leading fields do not parse fails as well), and
  every table built from a source that has this line fails: no table is returned,
  whatever the other lines are. The lines have at most \<open>INT_MAX\<close> bytes, so that the \<open>int\<close>
  offsets of the source do not overflow.
\<close>

theorem missing_separator_fails:
  assumes "int (strlen line) \<le> INT_MAX"
    and "\<forall>rest. after_leading_fields line = Some rest \<longrightarrow> ''-'' \<notin> set (ws_tokens rest)"
  shows "sc_parse_mountinfo_entry line = None
    \<and> (\<forall>stream. Line line \<in> set stream
          \<and> (\<forall>l. Line l \<in> set stream \<longrightarrow> int (strlen l) \<le> INT_MAX)
        \<longrightarrow> sc_parse_mountinfo (Some stream) = None)"
proof -
  define l where "l = takeWhile (\<lambda>c. c \<noteq> NUL) line"
  have nn: "NUL \<notin> set l"
    unfolding l_def by (auto dest: set_takeWhileD)
  have "sc_parse_mountinfo_entry line = None"
  proof (cases "parse_leading_fields (calloc_entry) l")
    case (Inl b)
    then show ?thesis
      by (simp add: sc_parse_mountinfo_entry_def sc_parse_mountinfo_entry_raw_def l_def)
  next
    case (Inr x)
    then obtain e1 o1 where r: "parse_leading_fields (calloc_entry) l = Inr (e1, o1)"
      by (cases x) auto
    then have "after_leading_fields line = Some (drop o1 l)"
      by (simp add: after_leading_fields_def l_def)
    with assms(2) have no: "''-'' \<notin> set (ws_tokens (drop o1 l))"
      by simp
    have "\<exists>b. opt_fields_loop (e1\<lparr>optional_fields := Some o1\<rparr>) l o1 0 = Inl b"
    proof (cases "opt_fields_loop (e1\<lparr>optional_fields := Some o1\<rparr>) l o1 0")
      case (Inl b)
      then show ?thesis by simp
    next
      case (Inr y)
      from opt_fields_loop_break_separator [OF nn Inr] no show ?thesis
        by simp
    qed
    with r show ?thesis
      by (auto simp: sc_parse_mountinfo_entry_def sc_parse_mountinfo_entry_raw_def l_def)
  qed
  then show ?thesis
    by (auto simp: sc_parse_mountinfo_def read_loop_fail)
qed

theorem missing_separator_fails_witness:
  "after_leading_fields (no_separator_line @ [CHR 0x0A])
     = Some (''master:1 ext3 /dev/root rw,errors=continue'' @ [CHR 0x0A])
   \<and> sc_parse_mountinfo_entry (no_separator_line @ [CHR 0x0A]) = None
   \<and> sc_parse_mountinfo
       (Some [Line (kernel_doc_line @ [CHR 0x0A]), Line (no_separator_line @ [CHR 0x0A]),
              Line (kernel_doc_line @ [CHR 0x0A])]) = None
   \<and> map_option length
       (sc_parse_mountinfo
         (Some [Line (kernel_doc_line @ [CHR 0x0A]), Line (kernel_doc_line @ [CHR 0x0A])])) = Some 2"
proof -
  have a: "after_leading_fields (no_separator_line @ [CHR 0x0A])
     = Some (''master:1 ext3 /dev/root rw,errors=continue'' @ [CHR 0x0A])"
    by code_simp
  have t: "ws_tokens (''master:1 ext3 /dev/root rw,errors=continue'' @ [CHR 0x0A])
     = [''master:1'', ''ext3'', ''/dev/root'', ''rw,errors=continue'']"
    by code_simp
  have g: "map_option length
       (sc_parse_mountinfo
         (Some [Line (kernel_doc_line @ [CHR 0x0A]), Line (kernel_doc_line @ [CHR 0x0A])])) = Some 2"
    by code_simp
  have n: "int (strlen (no_separator_line @ [CHR 0x0A])) \<le> INT_MAX"
    by (simp add: strlen_def no_separator_line_def INT_MAX_def)
  have k: "int (strlen (kernel_doc_line @ [CHR 0x0A])) \<le> INT_MAX"
    by (simp add: strlen_def kernel_doc_line_def INT_MAX_def)
  have s: "\<forall>l. Line l \<in> set [Line (kernel_doc_line @ [CHR 0x0A]),
        Line (no_separator_line @ [CHR 0x0A]), Line (kernel_doc_line @ [CHR 0x0A])]
      \<longrightarrow> int (strlen l) \<le> INT_MAX"
    using n k by auto
  from missing_separator_fails [of "no_separator_line @ [CHR 0x0A]"] a t n
  have "sc_parse_mountinfo_entry (no_separator_line @ [CHR 0x0A]) = None
    \<and> (\<forall>stream. Line (no_separator_line @ [CHR 0x0A]) \<in> set stream
          \<and> (\<forall>l. Line l \<in> set stream \<longrightarrow> int (strlen l) \<le> INT_MAX)
        \<longrightarrow> sc_parse_mountinfo (Some stream) = None)"
    by simp
  with s have "sc_parse_mountinfo_entry (no_separator_line @ [CHR 0x0A]) = None
    \<and> sc_parse_mountinfo
       (Some [Line (kernel_doc_line @ [CHR 0x0A]), Line (no_separator_line @ [CHR 0x0A]),
              Line (kernel_doc_line @ [CHR 0x0A])]) = None"
    by simp
  with a g show ?thesis
    by simp
qed

text \<open>
  C5. Trailing-newline tolerance: for every line, parsing the line with a newline after
  it and parsing the line without it have the same outcome: both fail, or both succeed
  with the same entry, hence with identical values in all eleven fields. The line with
  its newline has at most \<open>INT_MAX\<close> bytes, so that the \<open>int\<close> offsets of the source do not
  overflow.
\<close>

theorem trailing_newline_tolerated:
  assumes "int (strlen (line @ [CHR 0x0A])) \<le> INT_MAX"
  shows "sc_parse_mountinfo_entry (line @ [CHR 0x0A]) = sc_parse_mountinfo_entry line
   \<and> map_option entry_values (sc_parse_mountinfo_entry (line @ [CHR 0x0A]))
       = map_option entry_values (sc_parse_mountinfo_entry line)"
proof -
  have "sc_parse_mountinfo_entry_raw (line @ [CHR 0x0A]) = sc_parse_mountinfo_entry_raw line"
  proof (cases "NUL \<in> set line")
    case True
    then have "takeWhile (\<lambda>c. c \<noteq> NUL) (line @ [CHR 0x0A]) = takeWhile (\<lambda>c. c \<noteq> NUL) line"
      by (auto simp: takeWhile_append)
    then show ?thesis
      by (simp add: sc_parse_mountinfo_entry_raw_def)
  next
    case False
    then have t: "takeWhile (\<lambda>c. c \<noteq> NUL) (line @ [CHR 0x0A]) = line @ [CHR 0x0A]"
      and t': "takeWhile (\<lambda>c. c \<noteq> NUL) line = line"
      by (auto simp: takeWhile_append)
    show ?thesis
    proof (cases "parse_leading_fields calloc_entry line")
      case (Inl b)
      then show ?thesis
        unfolding sc_parse_mountinfo_entry_raw_def t t'
        by (simp add: parse_leading_fields_LF)
    next
      case (Inr x)
      then obtain e1 o1 where r1: "parse_leading_fields calloc_entry line = Inr (e1, o1)"
        by (cases x) auto
      note le1 = parse_leading_fields_offset [OF r1]
      show ?thesis
      proof (cases "opt_fields_loop (e1\<lparr>optional_fields := Some o1\<rparr>) line o1 0")
        case (Inl b)
        with r1 le1 show ?thesis
          unfolding sc_parse_mountinfo_entry_raw_def t t'
          by (simp add: parse_leading_fields_LF opt_fields_loop_LF)
      next
        case (Inr y)
        then obtain e2 o2
          where r2: "opt_fields_loop (e1\<lparr>optional_fields := Some o1\<rparr>) line o1 0 = Inr (e2, o2)"
          by (cases y) auto
        note le2 = opt_fields_loop_offset [OF r2]
        from r1 le1 r2 le2 show ?thesis
          unfolding sc_parse_mountinfo_entry_raw_def t t'
          by (simp add: parse_leading_fields_LF opt_fields_loop_LF parse_trailing_fields_LF)
      qed
    qed
  qed
  then show ?thesis
    by (simp add: sc_parse_mountinfo_entry_def)
qed

theorem trailing_newline_tolerated_witness:
  "map_option entry_values (sc_parse_mountinfo_entry (kernel_doc_line @ [CHR 0x0A]))
     = Some (36, 35, 98, 0,
        [Some ''/mnt1'', Some ''/mnt2'', Some ''rw,noatime'', Some ''master:1'',
         Some ''ext3'', Some ''/dev/root'', Some ''rw,errors=continue''])
   \<and> sc_parse_mountinfo_entry (no_separator_line @ [CHR 0x0A]) = None"
proof -
  have a: "map_option entry_values (sc_parse_mountinfo_entry kernel_doc_line)
     = Some (36, 35, 98, 0,
        [Some ''/mnt1'', Some ''/mnt2'', Some ''rw,noatime'', Some ''master:1'',
         Some ''ext3'', Some ''/dev/root'', Some ''rw,errors=continue''])"
    by code_simp
  have b: "sc_parse_mountinfo_entry no_separator_line = None"
    by code_simp
  have n: "int (strlen (no_separator_line @ [CHR 0x0A])) \<le> INT_MAX"
    by (simp add: strlen_def no_separator_line_def INT_MAX_def)
  have k: "int (strlen (kernel_doc_line @ [CHR 0x0A])) \<le> INT_MAX"
    by (simp add: strlen_def kernel_doc_line_def INT_MAX_def)
  from trailing_newline_tolerated [OF k] trailing_newline_tolerated [OF n] a b
  show ?thesis
    by simp
qed

text \<open>
  C6. A line of the grammar with no optional field, where the separator \<open>-\<close> comes right
  after the token of mount_opts, parses, and the optional_fields of the entry is not
  NULL and is the string of length zero. The line is well-formed otherwise: numbers in
  the range of their type, fields without white space, root and super_opts not empty,
  nothing or white space after super_opts, and at most \<open>INT_MAX\<close> bytes.
\<close>

theorem empty_optional_fields:
  assumes "- (2 ^ 31) \<le> mid" "mid < 2 ^ 31" "- (2 ^ 31) \<le> pid" "pid < 2 ^ 31"
      "0 \<le> mj" "mj < 2 ^ 32" "0 \<le> mn" "mn < 2 ^ 32"
    and "token rt" "token mdir" "token mopts" "token fs" "token src" "token sopts"
    and "rt \<noteq> []" and "sopts \<noteq> []"
    and "trailer = [] \<or> isspace (hd trailer)" and "NUL \<notin> set trailer"
    and "int (strlen (mountinfo_line mid pid mj mn rt mdir mopts [] fs src sopts @ trailer))
      \<le> INT_MAX"
  shows "\<exists>e. sc_parse_mountinfo_entry
          (mountinfo_line mid pid mj mn rt mdir mopts [] fs src sopts @ trailer) = Some e
      \<and> optional_fields e \<noteq> None \<and> field_str e (optional_fields e) = Some []"
proof -
  have o: "\<forall>t\<in>set []. token t \<and> t \<noteq> ''-''"
    by simp
  from assms(16,17)
  have l: "sopts \<noteq> [] \<and> (trailer = [] \<or> isspace (hd trailer))
      \<or> trailer \<noteq> [] \<and> hd trailer = CHR '' ''"
    by simp
  from parse_mountinfo_line [OF assms(1-11) o assms(12-15) l assms(18)]
  obtain e where p: "sc_parse_mountinfo_entry
          (mountinfo_line mid pid mj mn rt mdir mopts [] fs src sopts @ trailer) = Some e"
    and v: "entry_values e
        = (mid, pid, mj, mn,
           [Some rt, Some mdir, Some mopts, Some (join_sp []), Some fs, Some src, Some sopts])"
    by (elim exE conjE)
  from v have f: "field_str e (optional_fields e) = Some []"
    by (simp add: entry_values_def join_sp_def)
  then have "optional_fields e \<noteq> None"
    by (cases "optional_fields e") (simp_all add: field_str_def)
  with p f show ?thesis
    by (intro exI [of _ e]) simp
qed

theorem empty_optional_fields_witness:
  "\<exists>e. sc_parse_mountinfo_entry
          (''36 35 98:0 /mnt1 /mnt2 rw,noatime - ext3 /dev/root rw,errors=continue''
            @ [CHR 0x0A]) = Some e
      \<and> optional_fields e \<noteq> None \<and> field_str e (optional_fields e) = Some []"
proof -
  have L: "mountinfo_line 36 35 98 0 ''/mnt1'' ''/mnt2'' ''rw,noatime'' [] ''ext3'' ''/dev/root''
        ''rw,errors=continue''
      = ''36 35 98:0 /mnt1 /mnt2 rw,noatime - ext3 /dev/root rw,errors=continue''"
    by code_simp
  have r: "- (2 ^ 31) \<le> (36 :: int)" "(36 :: int) < 2 ^ 31" "- (2 ^ 31) \<le> (35 :: int)"
      "(35 :: int) < 2 ^ 31" "0 \<le> (98 :: int)" "(98 :: int) < 2 ^ 32" "0 \<le> (0 :: int)"
      "(0 :: int) < 2 ^ 32"
    by simp_all
  have t: "token ''/mnt1''" "token ''/mnt2''" "token ''rw,noatime''" "token ''ext3''"
      "token ''/dev/root''" "token ''rw,errors=continue''"
    by (simp_all add: token_def isspace_def)
  have n: "''/mnt1'' \<noteq> []" "''rw,errors=continue'' \<noteq> []"
      "[CHR 0x0A] = [] \<or> isspace (hd [CHR 0x0A])" "NUL \<notin> set [CHR 0x0A]"
    by simp_all
  have b: "int (strlen (mountinfo_line 36 35 98 0 ''/mnt1'' ''/mnt2'' ''rw,noatime'' [] ''ext3''
        ''/dev/root'' ''rw,errors=continue'' @ [CHR 0x0A])) \<le> INT_MAX"
    unfolding L by (simp add: strlen_def INT_MAX_def)
  from empty_optional_fields [OF r t n b] show ?thesis
    unfolding L .
qed

text \<open>
  C7 as the specification states it, for a root that is empty in the line: the line of
  the grammar with the empty root, mount_dir \<open>/mnt\<close> and no optional field does not parse.
  The white space after the device numbers, with the space that ends the empty root, is
  consumed with the numbers, so that \<open>/mnt\<close> is taken as root and the separator as
  mount_opts.
\<close>

theorem empty_root_counterexample:
  "mountinfo_line 1 2 3 4 [] ''/mnt'' ''rw'' [] ''ext3'' ''src'' ''opts''
     = ''1 2 3:4  /mnt rw - ext3 src opts''
   \<and> sc_parse_mountinfo_entry ''1 2 3:4  /mnt rw - ext3 src opts'' = None"
  by code_simp

text \<open>
  C7, amended. Every entry that the parser returns, for a line of at most \<open>INT_MAX\<close> bytes,
  has its seven string fields not NULL. On a line of the grammar whose root is not empty,
  each string field of the entry is the token at its position, also when that token is
  empty: an empty mount_dir, mount_opts, optional field, fs_type or mount_source, and an
  empty super_opts that a space follows, is the string of length zero and the line
  parses. Nothing is said of an empty root.
\<close>

theorem string_fields_non_null:
  assumes "int (strlen line) \<le> INT_MAX"
    and "- (2 ^ 31) \<le> mid" "mid < 2 ^ 31" "- (2 ^ 31) \<le> pid" "pid < 2 ^ 31"
      "0 \<le> mj" "mj < 2 ^ 32" "0 \<le> mn" "mn < 2 ^ 32"
    and "token rt" "token mdir" "token mopts" "\<forall>t\<in>set opts. token t \<and> t \<noteq> ''-''"
      "token fs" "token src" "token sopts"
    and "rt \<noteq> []"
    and "sopts \<noteq> [] \<and> (trailer = [] \<or> isspace (hd trailer))
         \<or> trailer \<noteq> [] \<and> hd trailer = CHR '' ''"
    and "NUL \<notin> set trailer"
    and "int (strlen (mountinfo_line mid pid mj mn rt mdir mopts opts fs src sopts @ trailer))
      \<le> INT_MAX"
  shows "(\<forall>e. sc_parse_mountinfo_entry line = Some e
        \<longrightarrow> root e \<noteq> None \<and> mount_dir e \<noteq> None \<and> mount_opts e \<noteq> None
          \<and> optional_fields e \<noteq> None \<and> fs_type e \<noteq> None \<and> mount_source e \<noteq> None
          \<and> super_opts e \<noteq> None)
    \<and> (\<exists>e. sc_parse_mountinfo_entry
          (mountinfo_line mid pid mj mn rt mdir mopts opts fs src sopts @ trailer) = Some e
        \<and> map (field_str e)
            [root e, mount_dir e, mount_opts e, optional_fields e,
             fs_type e, mount_source e, super_opts e]
          = [Some rt, Some mdir, Some mopts, Some (join_sp opts), Some fs, Some src, Some sopts])"
proof (rule conjI)
  show "\<forall>e. sc_parse_mountinfo_entry line = Some e
        \<longrightarrow> root e \<noteq> None \<and> mount_dir e \<noteq> None \<and> mount_opts e \<noteq> None
          \<and> optional_fields e \<noteq> None \<and> fs_type e \<noteq> None \<and> mount_source e \<noteq> None
          \<and> super_opts e \<noteq> None"
    by (intro allI impI) (rule parsed_entry_non_null)
next
  from parse_mountinfo_line [OF assms(2-19)]
  obtain e where p: "sc_parse_mountinfo_entry
          (mountinfo_line mid pid mj mn rt mdir mopts opts fs src sopts @ trailer) = Some e"
    and v: "entry_values e
        = (mid, pid, mj, mn,
           [Some rt, Some mdir, Some mopts, Some (join_sp opts), Some fs, Some src, Some sopts])"
    by (elim exE conjE)
  from v have "map (field_str e)
            [root e, mount_dir e, mount_opts e, optional_fields e,
             fs_type e, mount_source e, super_opts e]
          = [Some rt, Some mdir, Some mopts, Some (join_sp opts), Some fs, Some src, Some sopts]"
    unfolding entry_values_def by (elim Pair_inject)
  with p show "\<exists>e. sc_parse_mountinfo_entry
          (mountinfo_line mid pid mj mn rt mdir mopts opts fs src sopts @ trailer) = Some e
        \<and> map (field_str e)
            [root e, mount_dir e, mount_opts e, optional_fields e,
             fs_type e, mount_source e, super_opts e]
          = [Some rt, Some mdir, Some mopts, Some (join_sp opts), Some fs, Some src, Some sopts]"
    by (intro exI [of _ e] conjI)
qed

theorem string_fields_non_null_witness:
  "\<exists>e. sc_parse_mountinfo_entry ''304 301 0:45 /  rw,relatime  - tmpfs   '' = Some e
      \<and> root e \<noteq> None \<and> mount_dir e \<noteq> None \<and> mount_opts e \<noteq> None
      \<and> optional_fields e \<noteq> None \<and> fs_type e \<noteq> None \<and> mount_source e \<noteq> None
      \<and> super_opts e \<noteq> None
      \<and> map (field_str e)
            [root e, mount_dir e, mount_opts e, optional_fields e,
             fs_type e, mount_source e, super_opts e]
          = [Some ''/'', Some [], Some ''rw,relatime'', Some [], Some ''tmpfs'', Some [], Some []]"
proof -
  define l where "l = ''304 301 0:45 /  rw,relatime  - tmpfs   ''"
  have L: "mountinfo_line 304 301 0 45 ''/'' [] ''rw,relatime'' [[]] ''tmpfs'' [] [] @ '' '' = l"
    unfolding l_def by code_simp
  have r: "- (2 ^ 31) \<le> (304 :: int)" "(304 :: int) < 2 ^ 31" "- (2 ^ 31) \<le> (301 :: int)"
      "(301 :: int) < 2 ^ 31" "0 \<le> (0 :: int)" "(0 :: int) < 2 ^ 32" "0 \<le> (45 :: int)"
      "(45 :: int) < 2 ^ 32"
    by simp_all
  have t: "token ''/''" "token []" "token ''rw,relatime''"
      "\<forall>t\<in>set [[]]. token t \<and> t \<noteq> ''-''" "token ''tmpfs''" "token []" "token []"
    by (simp_all add: token_def isspace_def)
  have n: "''/'' \<noteq> []"
      "[] \<noteq> [] \<and> ('' '' = [] \<or> isspace (hd '' '')) \<or> '' '' \<noteq> [] \<and> hd '' '' = CHR '' ''"
      "NUL \<notin> set '' ''"
    by simp_all
  have b: "int (strlen l) \<le> INT_MAX"
    unfolding l_def by (simp add: strlen_def INT_MAX_def)
  have b': "int (strlen (mountinfo_line 304 301 0 45 ''/'' [] ''rw,relatime'' [[]] ''tmpfs'' [] []
        @ '' '')) \<le> INT_MAX"
    unfolding L by (rule b)
  have j: "join_sp [[]] = []"
    by (simp add: join_sp_def)
  note T = string_fields_non_null [OF b r t n b', unfolded L j]
  from T obtain e where p: "sc_parse_mountinfo_entry l = Some e"
    and m: "map (field_str e)
            [root e, mount_dir e, mount_opts e, optional_fields e,
             fs_type e, mount_source e, super_opts e]
          = [Some ''/'', Some [], Some ''rw,relatime'', Some [], Some ''tmpfs'', Some [], Some []]"
    by (elim conjE exE)
  from T p have "root e \<noteq> None \<and> mount_dir e \<noteq> None \<and> mount_opts e \<noteq> None
      \<and> optional_fields e \<noteq> None \<and> fs_type e \<noteq> None \<and> mount_source e \<noteq> None
      \<and> super_opts e \<noteq> None"
    by (elim conjE allE [of _ e] impE) simp_all
  with p m show ?thesis
    unfolding l_def by (intro exI [of _ e]) simp
qed

text \<open>
  C4 as the specification states it: where text follows super_opts the line parses and
  the fields joined again give the line without that text; where a tab stands between
  root and mount_dir the parsed root runs into mount_dir (\<open>ab\<close> for \<open>a\<close>), and the fields
  joined again give a line with other tokens. In both the result differs from the line
  by more than white space.
\<close>

theorem round_trip_counterexample:
  "map_option reassemble
      (sc_parse_mountinfo_entry ''36 35 98:0 /mnt1 /mnt2 rw - ext3 /dev/root rw and more'')
     = Some ''36 35 98:0 /mnt1 /mnt2 rw - ext3 /dev/root rw''
   \<and> ws_tokens ''36 35 98:0 /mnt1 /mnt2 rw - ext3 /dev/root rw''
     \<noteq> ws_tokens ''36 35 98:0 /mnt1 /mnt2 rw - ext3 /dev/root rw and more''
   \<and> map_option reassemble (sc_parse_mountinfo_entry (''1 2 3:4 a'' @ CHR 0x09 # ''b c - d e f''))
     = Some ''1 2 3:4 ab b c - d e f''
   \<and> ws_tokens ''1 2 3:4 ab b c - d e f''
     \<noteq> ws_tokens (''1 2 3:4 a'' @ CHR 0x09 # ''b c - d e f'')"
  by code_simp

text \<open>
  C4, amended. Round trip on the lines of the grammar: numbers in the range of their type
  and in decimal without sign or leading zeros (a minus sign for a negative identifier),
  one space between fields, fields without white space, root and super_opts not empty,
  optional fields not empty and other than \<open>-\<close>, at most \<open>INT_MAX\<close> bytes. Such a line, with
  nothing or white space and any text after it, parses, and the fields of the entry
  joined again as the specification says are the line itself, up to the end of super_opts.
\<close>

theorem round_trip:
  assumes "- (2 ^ 31) \<le> mid" "mid < 2 ^ 31" "- (2 ^ 31) \<le> pid" "pid < 2 ^ 31"
      "0 \<le> mj" "mj < 2 ^ 32" "0 \<le> mn" "mn < 2 ^ 32"
    and "token rt" "token mdir" "token mopts"
      "\<forall>t\<in>set opts. token t \<and> t \<noteq> [] \<and> t \<noteq> ''-''"
      "token fs" "token src" "token sopts"
    and "rt \<noteq> []" and "sopts \<noteq> []"
    and "trailer = [] \<or> isspace (hd trailer)" and "NUL \<notin> set trailer"
    and "int (strlen (mountinfo_line mid pid mj mn rt mdir mopts opts fs src sopts @ trailer))
      \<le> INT_MAX"
  shows "\<exists>e. sc_parse_mountinfo_entry
          (mountinfo_line mid pid mj mn rt mdir mopts opts fs src sopts @ trailer) = Some e
      \<and> reassemble e = mountinfo_line mid pid mj mn rt mdir mopts opts fs src sopts"
proof -
  from assms(12) have o: "\<forall>t\<in>set opts. token t \<and> t \<noteq> ''-''" and ne: "\<forall>t\<in>set opts. t \<noteq> []"
    by blast+
  from assms(17,18)
  have l: "sopts \<noteq> [] \<and> (trailer = [] \<or> isspace (hd trailer))
      \<or> trailer \<noteq> [] \<and> hd trailer = CHR '' ''"
    by simp
  from parse_mountinfo_line [OF assms(1-11) o assms(13-16) l assms(19)]
  obtain e where p: "sc_parse_mountinfo_entry
          (mountinfo_line mid pid mj mn rt mdir mopts opts fs src sopts @ trailer) = Some e"
    and v: "entry_values e
        = (mid, pid, mj, mn,
           [Some rt, Some mdir, Some mopts, Some (join_sp opts), Some fs, Some src, Some sopts])"
    by (elim exE conjE)
  have "reassemble e = mountinfo_line mid pid mj mn rt mdir mopts opts fs src sopts"
    unfolding reassemble_values [OF v] join_fields [OF ne] mountinfo_line_def ..
  with p show ?thesis
    by (intro exI [of _ e] conjI)
qed

theorem round_trip_witness:
  "map_option reassemble (sc_parse_mountinfo_entry (kernel_doc_line @ [CHR 0x0A]))
     = Some kernel_doc_line"
proof -
  have L: "mountinfo_line 36 35 98 0 ''/mnt1'' ''/mnt2'' ''rw,noatime'' [''master:1''] ''ext3''
        ''/dev/root'' ''rw,errors=continue''
      = kernel_doc_line"
    by code_simp
  have r: "- (2 ^ 31) \<le> (36 :: int)" "(36 :: int) < 2 ^ 31" "- (2 ^ 31) \<le> (35 :: int)"
      "(35 :: int) < 2 ^ 31" "0 \<le> (98 :: int)" "(98 :: int) < 2 ^ 32" "0 \<le> (0 :: int)"
      "(0 :: int) < 2 ^ 32"
    by simp_all
  have t: "token ''/mnt1''" "token ''/mnt2''" "token ''rw,noatime''"
      "\<forall>t\<in>set [''master:1'']. token t \<and> t \<noteq> [] \<and> t \<noteq> ''-''"
      "token ''ext3''" "token ''/dev/root''" "token ''rw,errors=continue''"
    by (simp_all add: token_def isspace_def)
  have n: "''/mnt1'' \<noteq> []" "''rw,errors=continue'' \<noteq> []"
      "[CHR 0x0A] = [] \<or> isspace (hd [CHR 0x0A])" "NUL \<notin> set [CHR 0x0A]"
    by simp_all
  have b: "int (strlen (mountinfo_line 36 35 98 0 ''/mnt1'' ''/mnt2'' ''rw,noatime''
        [''master:1''] ''ext3'' ''/dev/root'' ''rw,errors=continue'' @ [CHR 0x0A])) \<le> INT_MAX"
    unfolding L by (simp add: strlen_def INT_MAX_def kernel_doc_line_def)
  from round_trip [OF r t n b, unfolded L]
  obtain e where "sc_parse_mountinfo_entry (kernel_doc_line @ [CHR 0x0A]) = Some e"
    and "reassemble e = kernel_doc_line"
    by (elim conjE exE)
  then show ?thesis
    by simp
qed

section \<open>Properties of the root hash extraction\<close>

lemma raw_lines_Nil [simp]: "raw_lines [] = []"
  by (simp add: raw_lines.simps)

lemma raw_lines_Cons:
  "data \<noteq> [] \<Longrightarrow> raw_lines data =
     takeWhile (\<lambda>c. c \<noteq> CHR 0x0A) data
       # raw_lines (drop (length (takeWhile (\<lambda>c. c \<noteq> CHR 0x0A) data) + 1) data)"
  by (subst raw_lines.simps) simp

lemma SplitN2_colon:
  "CHR '':'' \<in> set l \<Longrightarrow> SplitN2 l = [takeWhile (\<lambda>c. c \<noteq> CHR '':'') l, after_colon l]"
  by (simp add: SplitN2_def after_colon_def)

lemma SplitN2_no_colon: "CHR '':'' \<notin> set l \<Longrightarrow> SplitN2 l = [l]"
  by (simp add: SplitN2_def)

lemma last_root_hash_step:
  assumes "data \<noteq> []"
  defines "raw \<equiv> takeWhile (\<lambda>c. c \<noteq> CHR 0x0A) data"
  defines "rest \<equiv> drop (length raw + 1) data"
  shows "last_root_hash data rh =
    (if HasPrefix (dropCR raw) ''Root hash''
     then last_root_hash rest (TrimSpace (after_colon (dropCR raw)))
     else last_root_hash rest rh)"
  using assms
  by (simp add: last_root_hash_def root_hash_lines_def raw_lines_Cons [of data] split: list.splits)

lemma scan_loop_returns:
  assumes "\<forall>raw\<in>set (raw_lines data). int (length raw) < MaxScanTokenSize"
    and "\<forall>l\<in>set (root_hash_lines data). CHR '':'' \<in> set l"
  shows "scan_loop data rh = Return (last_root_hash data rh, None)"
  using assms
proof (induction data arbitrary: rh rule: raw_lines.induct)
  case (1 data)
  show ?case
  proof (cases "data = []")
    case True
    then show ?thesis
      by (simp add: scan_loop.simps Scan_def last_root_hash_def root_hash_lines_def)
  next
    case False
    define raw where "raw = takeWhile (\<lambda>c. c \<noteq> CHR 0x0A) data"
    define rest where "rest = drop (length raw + 1) data"
    have rl: "raw_lines data = raw # raw_lines rest"
      using False by (simp add: raw_lines_Cons [of data] raw_def rest_def)
    from "1.prems"(1) rl have short: "int (length raw) < MaxScanTokenSize"
      and short': "\<forall>r\<in>set (raw_lines rest). int (length r) < MaxScanTokenSize"
      by auto
    have sc: "Scan data = Token (dropCR raw) rest"
      using False short by (simp add: Scan_def Let_def raw_def rest_def)
    have rhl: "root_hash_lines data =
        (if HasPrefix (dropCR raw) ''Root hash'' then [dropCR raw] else []) @ root_hash_lines rest"
      by (simp add: root_hash_lines_def rl)
    with "1.prems"(2) have colon': "\<forall>l\<in>set (root_hash_lines rest). CHR '':'' \<in> set l"
      by auto
    have IH: "scan_loop rest r = Return (last_root_hash rest r, None)" for r
      using "1.IH" [OF False, of r] short' colon' by (simp add: raw_def rest_def)
    have step: "last_root_hash data rh =
      (if HasPrefix (dropCR raw) ''Root hash''
       then last_root_hash rest (TrimSpace (after_colon (dropCR raw)))
       else last_root_hash rest rh)"
      using last_root_hash_step [OF False, of rh] by (simp add: raw_def rest_def)
    show ?thesis
    proof (cases "HasPrefix (dropCR raw) ''Root hash''")
      case True
      with rhl "1.prems"(2) have "CHR '':'' \<in> set (dropCR raw)"
        by auto
      then show ?thesis
        using True sc IH step by (subst scan_loop.simps) (simp add: SplitN2_colon)
    next
      case False
      then show ?thesis
        using sc IH step by (subst scan_loop.simps) simp
    qed
  qed
qed

lemma scan_loop_panics:
  assumes "\<forall>raw\<in>set (raw_lines data). int (length raw) < MaxScanTokenSize"
    and "\<exists>l\<in>set (root_hash_lines data). CHR '':'' \<notin> set l"
  shows "scan_loop data rh = Panic"
  using assms
proof (induction data arbitrary: rh rule: raw_lines.induct)
  case (1 data)
  show ?case
  proof (cases "data = []")
    case True
    with "1.prems"(2) show ?thesis
      by (simp add: root_hash_lines_def)
  next
    case False
    define raw where "raw = takeWhile (\<lambda>c. c \<noteq> CHR 0x0A) data"
    define rest where "rest = drop (length raw + 1) data"
    have rl: "raw_lines data = raw # raw_lines rest"
      using False by (simp add: raw_lines_Cons [of data] raw_def rest_def)
    from "1.prems"(1) rl have short: "int (length raw) < MaxScanTokenSize"
      and short': "\<forall>r\<in>set (raw_lines rest). int (length r) < MaxScanTokenSize"
      by auto
    have sc: "Scan data = Token (dropCR raw) rest"
      using False short by (simp add: Scan_def Let_def raw_def rest_def)
    have rhl: "root_hash_lines data =
        (if HasPrefix (dropCR raw) ''Root hash'' then [dropCR raw] else []) @ root_hash_lines rest"
      by (simp add: root_hash_lines_def rl)
    have IH: "\<exists>l\<in>set (root_hash_lines rest). CHR '':'' \<notin> set l \<Longrightarrow> scan_loop rest r = Panic" for r
      using "1.IH" [OF False, of r] short' by (simp add: raw_def rest_def)
    show ?thesis
    proof (cases "HasPrefix (dropCR raw) ''Root hash'' \<and> CHR '':'' \<notin> set (dropCR raw)")
      case True
      then show ?thesis
        using sc by (subst scan_loop.simps) (simp add: SplitN2_no_colon)
    next
      case False
      with rhl "1.prems"(2) have ex: "\<exists>l\<in>set (root_hash_lines rest). CHR '':'' \<notin> set l"
        by (auto split: if_splits)
      show ?thesis
      proof (cases "HasPrefix (dropCR raw) ''Root hash''")
        case True
        with False have "CHR '':'' \<in> set (dropCR raw)" by simp
        then show ?thesis
          using True sc IH [OF ex] by (subst scan_loop.simps) (simp add: SplitN2_colon)
      next
        case False
        then show ?thesis
          using sc IH [OF ex] by (subst scan_loop.simps) simp
      qed
    qed
  qed
qed

lemma scan_loop_too_long:
  assumes "\<exists>raw\<in>set (raw_lines data). MaxScanTokenSize \<le> int (length raw)"
  shows "scan_loop data rh = Panic \<or> (\<exists>r. scan_loop data rh = Return (r, Some ErrTooLong))"
  using assms
proof (induction data arbitrary: rh rule: raw_lines.induct)
  case (1 data)
  show ?case
  proof (cases "data = []")
    case True
    with "1.prems" show ?thesis
      by simp
  next
    case False
    define raw where "raw = takeWhile (\<lambda>c. c \<noteq> CHR 0x0A) data"
    define rest where "rest = drop (length raw + 1) data"
    have rl: "raw_lines data = raw # raw_lines rest"
      using False by (simp add: raw_lines_Cons [of data] raw_def rest_def)
    show ?thesis
    proof (cases "MaxScanTokenSize \<le> int (length raw)")
      case True
      then have "Scan data = Done (Some ErrTooLong)"
        using False by (simp add: Scan_def Let_def raw_def)
      then show ?thesis
        by (subst scan_loop.simps) simp
    next
      case short: False
      with "1.prems" rl have ex: "\<exists>r\<in>set (raw_lines rest). MaxScanTokenSize \<le> int (length r)"
        by auto
      have sc: "Scan data = Token (dropCR raw) rest"
        using False short by (simp add: Scan_def Let_def raw_def rest_def)
      have IH: "scan_loop rest r = Panic \<or> (\<exists>r'. scan_loop rest r = Return (r', Some ErrTooLong))" for r
        using "1.IH" [OF False, of r] ex by (simp add: raw_def rest_def)
      show ?thesis
        using sc IH
        by (subst scan_loop.simps, subst (2) scan_loop.simps)
          (auto split: list.splits)
    qed
  qed
qed


lemma replicate_pos: "0 < n \<Longrightarrow> replicate n x = x # replicate (n - 1) x"
  by (cases n) simp_all

text \<open>
  C9. The extraction is not total: when no line is too long for the scanner and some line
  begins with \<open>Root hash\<close> but has no colon, the split of that line has one element, the
  read of index 1 is out of bounds, and the call panics instead of returning a value or
  an error. The output \<open>Root hash\<close> is such an input.
\<close>

theorem root_hash_line_without_colon_panics:
  assumes "\<forall>raw\<in>set (raw_lines output). int (length raw) < MaxScanTokenSize"
    and "l \<in> set (root_hash_lines output)"
    and "CHR '':'' \<notin> set l"
  shows "getRootHashFromOutput output = Panic"
proof -
  from assms(2,3) have "\<exists>l\<in>set (root_hash_lines output). CHR '':'' \<notin> set l"
    by blast
  with assms(1) have "scan_loop output [] = Panic"
    by (rule scan_loop_panics)
  then show ?thesis
    by (simp add: getRootHashFromOutput_def)
qed

theorem root_hash_line_without_colon_panics_witness:
  "root_hash_lines ''Root hash'' = [''Root hash''] \<and> getRootHashFromOutput ''Root hash'' = Panic"
proof -
  have rl: "raw_lines ''Root hash'' = [''Root hash'']"
    by code_simp
  have rh: "root_hash_lines ''Root hash'' = [''Root hash'']"
    by (simp add: root_hash_lines_def rl dropCR_def HasPrefix_def)
  have "getRootHashFromOutput ''Root hash'' = Panic"
    by (rule root_hash_line_without_colon_panics [of _ "''Root hash''"])
      (simp_all add: rl rh MaxScanTokenSize_def)
  with rh show ?thesis
    by simp
qed

text \<open>
  C1 as stated (the value of the first line beginning with \<open>Root hash\<close>) fails: the loop
  does not stop at the first such line, and a later one overwrites the value.
\<close>

theorem first_root_hash_line_counterexample:
  "first_root_hash_value (''Root hash: aa'' @ CHR 0x0A # ''Root hash: bb'') = Some ''aa''
   \<and> getRootHashFromOutput (''Root hash: aa'' @ CHR 0x0A # ''Root hash: bb'')
       = Return (''bb'', None)"
  by code_simp

text \<open>
  C1, amended. Given the combined output text, the extracted root hash is the value
  following the last line beginning with \<open>Root hash\<close> (the text after the first colon
  of that line, trimmed), for every output text that contains at least one such line,
  in which no line is too long for the scanner, every such line has a colon, and the
  value of the last one is not empty.
\<close>

theorem last_root_hash_line_extracted:
  assumes "\<forall>raw\<in>set (raw_lines output). int (length raw) < MaxScanTokenSize"
    and "\<forall>l\<in>set (root_hash_lines output). CHR '':'' \<in> set l"
    and "root_hash_lines output \<noteq> []"
    and "TrimSpace (after_colon (last (root_hash_lines output))) \<noteq> []"
  shows "getRootHashFromOutput output
    = Return (TrimSpace (after_colon (last (root_hash_lines output))), None)"
proof -
  have "scan_loop output [] = Return (last_root_hash output [], None)"
    using assms(1,2) by (rule scan_loop_returns)
  moreover have "last_root_hash output [] = TrimSpace (after_colon (last (root_hash_lines output)))"
    using assms(3) by (simp add: last_root_hash_def split: list.splits)
  ultimately show ?thesis
    using assms(4) by (simp add: getRootHashFromOutput_def)
qed

theorem last_root_hash_line_extracted_witness:
  "last (root_hash_lines veritysetup_output) = (''Root hash:      '' @ CHR 0x09 # ''e48e3514'')
   \<and> getRootHashFromOutput veritysetup_output = Return (''e48e3514'', None)"
proof -
  have rl: "raw_lines veritysetup_output =
      [''VERITY header information for snap.verity'', ''Hash type:        1'',
       ''Root hash:      '' @ CHR 0x09 # ''e48e3514'' @ [CHR 0x0D]]"
    by code_simp
  have rh: "root_hash_lines veritysetup_output = [(''Root hash:      '' @ CHR 0x09 # ''e48e3514'')]"
    by code_simp
  have tr: "TrimSpace (after_colon (last (root_hash_lines veritysetup_output))) = ''e48e3514''"
    by code_simp
  have "getRootHashFromOutput veritysetup_output
      = Return (TrimSpace (after_colon (last (root_hash_lines veritysetup_output))), None)"
    by (rule last_root_hash_line_extracted) (simp_all add: rl tr MaxScanTokenSize_def, simp_all add: rh)
  with rh tr show ?thesis
    by simp
qed


lemma scan_loop_long_output: "scan_loop long_output [] = Return (''abc'', Some ErrTooLong)"
proof -
  have tw: "takeWhile (\<lambda>c. c \<noteq> CHR 0x0A) long_output = ''Root hash: abc''"
    by (simp add: long_output_def)
  have s1: "Scan long_output = Token ''Root hash: abc'' (replicate 65536 (CHR ''a''))"
    by (simp add: Scan_def tw MaxScanTokenSize_def dropCR_def) (simp add: long_output_def)
  have s2: "Scan (replicate 65536 (CHR ''a'')) = Done (Some ErrTooLong)"
    by (simp add: Scan_def MaxScanTokenSize_def)
  have sp: "SplitN2 ''Root hash: abc'' = [''Root hash'', '' abc'']"
    by (simp add: SplitN2_def)
  have tr: "TrimSpace '' abc'' = ''abc''"
    by code_simp
  have "scan_loop long_output [] = scan_loop (replicate 65536 (CHR ''a'')) ''abc''"
    by (subst scan_loop.simps) (simp add: s1 sp tr HasPrefix_def)
  also have "\<dots> = Return (''abc'', Some ErrTooLong)"
    by (subst scan_loop.simps) (simp add: s2)
  finally show ?thesis .
qed

lemma root_hash_lines_long_output: "root_hash_lines long_output = [''Root hash: abc'']"
proof -
  have tw: "takeWhile (\<lambda>c. c \<noteq> CHR 0x0A) long_output = ''Root hash: abc''"
    by (simp add: long_output_def)
  have dr: "drop (length (takeWhile (\<lambda>c. c \<noteq> CHR 0x0A) long_output) + 1) long_output
      = replicate 65536 (CHR ''a'')"
    unfolding tw by (simp add: long_output_def)
  have r2: "raw_lines (replicate 65536 (CHR ''a'')) = [replicate 65536 (CHR ''a'')]"
    using raw_lines_Cons [of "replicate 65536 (CHR ''a'')"] by simp
  have ne: "long_output \<noteq> []"
    by (simp add: long_output_def)
  have rl: "raw_lines long_output = [''Root hash: abc'', replicate 65536 (CHR ''a'')]"
    using raw_lines_Cons [OF ne] unfolding dr by (simp add: tw r2)
  have np: "\<not> HasPrefix (dropCR (replicate 65536 (CHR ''a''))) ''Root hash''"
    by (simp add: dropCR_def HasPrefix_def replicate_pos [of 65536])
  show ?thesis
    using np by (simp add: root_hash_lines_def rl) (simp add: dropCR_def HasPrefix_def)
qed

text \<open>
  C8 as stated fails: the command succeeds, the output has a line beginning with
  \<open>Root hash\<close> whose value is not empty, and \<open>Format\<close> still returns an error, the one
  of the scanner for a line of 65536 bytes.
\<close>

theorem Format_failure_counterexample:
  "Format (\<lambda>dataDevice hashDevice. (long_output, None)) ''snap.data'' ''snap.verity''
     = Return (None, Some ErrTooLong)
   \<and> root_hash_lines long_output = [''Root hash: abc'']
   \<and> TrimSpace (after_colon ''Root hash: abc'') = ''abc''"
proof -
  have "TrimSpace (after_colon ''Root hash: abc'') = ''abc''"
    by code_simp
  then show ?thesis
    by (simp add: Format_def getRootHashFromOutput_def scan_loop_long_output
        root_hash_lines_long_output)
qed

text \<open>
  C8, amended. When \<open>Format\<close> returns (it panics on a line beginning with \<open>Root hash\<close>
  that has no colon), it returns an error and no \<open>Info\<close> if and only if the external
  command fails, or a line of the output is too long for the scanner, or the output has
  no line beginning with \<open>Root hash\<close>, or the value of the last such line is empty after
  trimming; otherwise it returns no error and an \<open>Info\<close> whose \<open>RootHash\<close> is that value,
  which is not empty.
\<close>

theorem Format_result:
  assumes run: "CombinedOutput dataDevice hashDevice = (output, cmd_err)"
    and ret: "Format CombinedOutput dataDevice hashDevice = Return (info, err)"
  shows "(err \<noteq> None \<longleftrightarrow>
            cmd_err \<noteq> None
          \<or> (\<exists>raw\<in>set (raw_lines output). MaxScanTokenSize \<le> int (length raw))
          \<or> root_hash_lines output = []
          \<or> TrimSpace (after_colon (last (root_hash_lines output))) = [])
       \<and> (err \<noteq> None \<longrightarrow> info = None)
       \<and> (err = None \<longrightarrow>
            info = Some \<lparr>RootHash = TrimSpace (after_colon (last (root_hash_lines output)))\<rparr>
          \<and> TrimSpace (after_colon (last (root_hash_lines output))) \<noteq> [])"
proof (cases cmd_err)
  case (Some e)
  with run ret show ?thesis
    by (auto simp: Format_def)
next
  case None
  show ?thesis
  proof (cases "\<exists>raw\<in>set (raw_lines output). MaxScanTokenSize \<le> int (length raw)")
    case True
    from scan_loop_too_long [OF True, of "[]"] run ret None True show ?thesis
      by (auto simp: Format_def getRootHashFromOutput_def split: outcome.splits if_splits)
  next
    case False
    then have short: "\<forall>raw\<in>set (raw_lines output). int (length raw) < MaxScanTokenSize"
      by auto
    have colon: "\<forall>l\<in>set (root_hash_lines output). CHR '':'' \<in> set l"
    proof (rule ccontr)
      assume "\<not> ?thesis"
      then have "\<exists>l\<in>set (root_hash_lines output). CHR '':'' \<notin> set l"
        by simp
      with short have "scan_loop output [] = Panic"
        by (rule scan_loop_panics)
      with run ret None show False
        by (simp add: Format_def getRootHashFromOutput_def)
    qed
    have sl: "scan_loop output [] = Return (last_root_hash output [], None)"
      using short colon by (rule scan_loop_returns)
    show ?thesis
    proof (cases "root_hash_lines output")
      case Nil
      with sl run ret None show ?thesis
        by (auto simp: Format_def getRootHashFromOutput_def last_root_hash_def)
    next
      case (Cons l ls)
      then have lr: "last_root_hash output [] = TrimSpace (after_colon (last (root_hash_lines output)))"
        by (simp add: last_root_hash_def)
      from sl run ret None False Cons show ?thesis
        unfolding lr by (auto simp: Format_def getRootHashFromOutput_def split: if_splits)
    qed
  qed
qed

theorem Format_result_witness:
  "Format (\<lambda>dataDevice hashDevice. (veritysetup_output, None)) ''snap.data'' ''snap.verity''
     = Return (Some \<lparr>RootHash = ''e48e3514''\<rparr>, None)
   \<and> root_hash_lines veritysetup_output \<noteq> []
   \<and> TrimSpace (after_colon (last (root_hash_lines veritysetup_output))) = ''e48e3514''"
proof -
  have F: "Format (\<lambda>dataDevice hashDevice. (veritysetup_output, None)) ''snap.data'' ''snap.verity''
     = Return (Some \<lparr>RootHash = ''e48e3514''\<rparr>, None)"
    by code_simp
  from Format_result [OF refl F] F show ?thesis
    by auto
qed

end
